theory Spec2Isabelle
  imports Main
begin

section \<open>Process exit codes\<close>

text \<open>
  The enumeration \<open>utils::ExitCode\<close> is declared in \<open>utils/system.h\<close>; the
  translation units modelled here use the two enumerators below.  A call of
  \<open>utils::exit_with\<close> ends the process, so a function that may call it returns a
  value of type \<open>ExitCode + 'a\<close>, with \<open>Inl\<close> for the exit.
\<close>

datatype ExitCode = SEARCH_CRITICAL_ERROR | SEARCH_INPUT_ERROR

section \<open>The type \<open>int\<close> of the source\<close>

text \<open>
  The sum of two values of the source's type \<open>int\<close>, 32 bits in two's complement:
  a sum outside the range wraps around.
\<close>

definition int_add :: "int \<Rightarrow> int \<Rightarrow> int" where
  "int_add a b = (a + b + 2 ^ 31) mod 2 ^ 32 - 2 ^ 31"

lemma int_add_exact:
  assumes "- (2 ^ 31) \<le> a + b" and "a + b < 2 ^ 31"
  shows "int_add a b = a + b"
proof -
  from assms have "0 \<le> a + b + 2 ^ 31" and "a + b + 2 ^ 31 < 2 ^ 32" by simp_all
  then have "(a + b + 2 ^ 31) mod 2 ^ 32 = a + b + 2 ^ 31" by (rule mod_pos_pos_trivial)
  then show ?thesis by (simp add: int_add_def)
qed

section \<open>Pattern validation (\<open>pdbs/validation.cc\<close>)\<close>

type_synonym Pattern = "int list"

text \<open>
  \<open>std::unique\<close> on a range: of every run of equal adjacent elements the first one
  is kept.  The model returns the kept prefix (the range up to the returned iterator).
\<close>

fun std_unique :: "'a list \<Rightarrow> 'a list" where
  "std_unique [] = []"
| "std_unique [x] = [x]"
| "std_unique (x # y # xs) =
     (if x = y then std_unique (y # xs) else x # std_unique (y # xs))"

text \<open>
  \<open>validate_and_normalize_pattern\<close>.  The arguments are the number of task variables
  (\<open>task_proxy.get_variables().size()\<close>), whether the log prints warnings, and the
  pattern.  The result is the exit code, or the pattern as it is left behind together
  with the lines written to the log.  \<open>std::sort\<close> on integers is \<open>sort\<close>; the
  iterator returned by \<open>std::unique\<close> differs from \<open>pattern.end()\<close> exactly when
  an element was dropped.
\<close>

definition duplicate_warning :: string where
  "duplicate_warning = ''Warning: duplicate variables in pattern have been removed''"

definition validate_and_normalize_pattern ::
  "nat \<Rightarrow> bool \<Rightarrow> Pattern \<Rightarrow> ExitCode + (Pattern \<times> string list)" where
  "validate_and_normalize_pattern variables_size is_warning pattern =
     (let sorted_pattern = sort pattern;
          kept = std_unique sorted_pattern;
          (pattern1, log) =
             (if length kept \<noteq> length sorted_pattern
              then (kept, if is_warning then [duplicate_warning] else [])
              else (sorted_pattern, []))
      in if pattern1 \<noteq> [] then
           (if hd pattern1 < 0 then Inl SEARCH_CRITICAL_ERROR
            else let num_variables = int variables_size
                 in if last pattern1 \<ge> num_variables then Inl SEARCH_CRITICAL_ERROR
                    else Inr (pattern1, log))
         else Inr (pattern1, log))"

lemma set_std_unique: "set (std_unique xs) = set xs"
  by (induction xs rule: std_unique.induct) auto

lemma length_std_unique_le: "length (std_unique xs) \<le> length xs"
  by (induction xs rule: std_unique.induct) auto

lemma std_unique_same_length:
  "length (std_unique xs) = length xs \<Longrightarrow> std_unique xs = xs"
proof (induction xs rule: std_unique.induct)
  case (3 x y xs)
  have le: "length (std_unique (y # xs)) \<le> Suc (length xs)"
    using length_std_unique_le [of "y # xs"] by simp
  show ?case
  proof (cases "x = y")
    case True
    with "3.prems" le show ?thesis by simp
  next
    case False
    with "3.prems" "3.IH"(2) show ?thesis by simp
  qed
qed simp_all

lemma std_unique_sorted_strict:
  fixes xs :: "int list"
  shows "sorted xs \<Longrightarrow> sorted_wrt (<) (std_unique xs)"
proof (induction xs rule: std_unique.induct)
  case (3 x y xs)
  from "3.prems" have xy: "x \<le> y" and rest: "sorted (y # xs)"
    by simp_all
  have tail_ge: "\<forall>z\<in>set (std_unique (y # xs)). y \<le> z"
    using rest by (auto simp: set_std_unique)
  show ?case
  proof (cases "x = y")
    case True
    with "3.IH"(1) rest show ?thesis by simp
  next
    case False
    with xy have "x < y" by simp
    with tail_ge have "\<forall>z\<in>set (std_unique (y # xs)). x < z" by fastforce
    with False "3.IH"(2) rest show ?thesis by simp
  qed
qed simp_all

lemma std_unique_sort_strict:
  fixes p :: "int list"
  shows "sorted_wrt (<) (std_unique (sort p))"
  by (rule std_unique_sorted_strict) simp

lemma strict_sorted_hd_least:
  fixes xs :: "int list"
  shows "sorted_wrt (<) xs \<Longrightarrow> x \<in> set xs \<Longrightarrow> hd xs \<le> x"
  by (cases xs) auto

lemma strict_sorted_last_greatest:
  fixes xs :: "int list"
  shows "sorted_wrt (<) xs \<Longrightarrow> x \<in> set xs \<Longrightarrow> x \<le> last xs"
proof (induction xs)
  case Nil
  then show ?case by simp
next
  case (Cons a xs)
  then show ?case by (cases xs) (auto simp: less_imp_le)
qed

lemma strict_sorted_distinct:
  fixes xs :: "int list"
  shows "sorted_wrt (<) xs \<Longrightarrow> distinct xs"
  by (induction xs) auto

lemma validate_and_normalize_pattern_alt:
  "validate_and_normalize_pattern n w p =
     (let k = std_unique (sort p)
      in if k \<noteq> [] \<and> (hd k < 0 \<or> int n \<le> last k) then Inl SEARCH_CRITICAL_ERROR
         else Inr (k, if length k \<noteq> length (sort p) \<and> w then [duplicate_warning] else []))"
proof (cases "length (std_unique (sort p)) = length (sort p)")
  case True
  then have eq: "std_unique (sort p) = sort p" by (rule std_unique_same_length)
  show ?thesis
    unfolding validate_and_normalize_pattern_def Let_def eq by simp
next
  case False
  then show ?thesis
    unfolding validate_and_normalize_pattern_def Let_def by (simp del: length_sort)
qed

text \<open>
  Claim C10.  Whenever \<open>validate_and_normalize_pattern\<close> returns, the pattern it
  leaves behind is the sorted input without duplicates: strictly increasing, distinct,
  and every variable number in it lies in \<open>[0, n)\<close> for \<open>n\<close> task variables.
  It exits exactly when the sorted pattern without duplicates holds a negative variable
  number or one that is at least \<open>n\<close>, and the exit code is then
  \<open>SEARCH_CRITICAL_ERROR\<close>.
\<close>

theorem validate_and_normalize_pattern_correct:
  fixes pattern :: Pattern
  shows "(case validate_and_normalize_pattern n w pattern of
     Inr (pattern', log) \<Rightarrow>
       pattern' = std_unique (sort pattern) \<and>
       sorted_wrt (<) pattern' \<and> distinct pattern' \<and>
       (\<forall>v\<in>set pattern'. 0 \<le> v \<and> v < int n)
   | Inl code \<Rightarrow>
       code = SEARCH_CRITICAL_ERROR \<and>
       (\<exists>v\<in>set (std_unique (sort pattern)). v < 0 \<or> int n \<le> v))"
proof -
  define k where "k = std_unique (sort pattern)"
  have strict: "sorted_wrt (<) k" unfolding k_def by (rule std_unique_sort_strict)
  have dist: "distinct k" using strict by (rule strict_sorted_distinct)
  show ?thesis
  proof (cases "k \<noteq> [] \<and> (hd k < 0 \<or> int n \<le> last k)")
    case True
    then have "hd k \<in> set k" and "last k \<in> set k" by simp_all
    with True have "\<exists>v\<in>set k. v < 0 \<or> int n \<le> v" by blast
    with True show ?thesis
      unfolding validate_and_normalize_pattern_alt Let_def k_def [symmetric] by simp
  next
    case False
    have "\<forall>v\<in>set k. 0 \<le> v \<and> v < int n"
    proof
      fix v assume v: "v \<in> set k"
      then have ne: "k \<noteq> []" by auto
      from strict_sorted_hd_least [OF strict v] False ne have "0 \<le> v" by simp
      moreover from strict_sorted_last_greatest [OF strict v] False ne have "v < int n" by simp
      ultimately show "0 \<le> v \<and> v < int n" ..
    qed
    moreover from False
    have "validate_and_normalize_pattern n w pattern =
        Inr (k, if length k \<noteq> length (sort pattern) \<and> w then [duplicate_warning] else [])"
      unfolding validate_and_normalize_pattern_alt Let_def k_def [symmetric] by simp
    ultimately show ?thesis
      using strict dist by (simp add: k_def)
  qed
qed

theorem validate_and_normalize_pattern_witness:
  "validate_and_normalize_pattern 5 True [3, 1, 3, 0] = Inr ([0, 1, 3], [duplicate_warning]) \<and>
   validate_and_normalize_pattern 5 True [3, 7, 1] = Inl SEARCH_CRITICAL_ERROR \<and>
   sorted_wrt (<) [0, 1, 3 :: int] \<and> distinct [0, 1, 3 :: int]"
  using validate_and_normalize_pattern_correct [where n = 5 and w = True and pattern = "[3, 1, 3, 0]"]
    validate_and_normalize_pattern_correct [where n = 5 and w = True and pattern = "[3, 7, 1]"]
  by (simp add: validate_and_normalize_pattern_def Let_def)

section \<open>Segmented vector (\<open>algorithms/segmented_vector.h\<close>)\<close>

definition SEGMENT_BYTES :: nat where
  "SEGMENT_BYTES = 8192"

text \<open>
  \<open>SEGMENT_ELEMENTS\<close> depends on the template parameter through \<open>sizeof(Entry)\<close>,
  which every operation below takes as its first argument.
\<close>

definition SEGMENT_ELEMENTS :: "nat \<Rightarrow> nat" where
  "SEGMENT_ELEMENTS sizeof_Entry =
     (if SEGMENT_BYTES div sizeof_Entry \<ge> 1 then SEGMENT_BYTES div sizeof_Entry else 1)"

text \<open>
  A segment is a block of \<open>SEGMENT_ELEMENTS\<close> slots of raw storage; a slot holds
  \<open>None\<close> until an entry is constructed in it and again after the entry is destroyed.
\<close>

record 'a SegmentedVector =
  segments :: "'a option list list"
  the_size :: nat

definition SegmentedVector_new :: "'a SegmentedVector" where
  "SegmentedVector_new = \<lparr>segments = [], the_size = 0\<rparr>"

definition get_segment :: "nat \<Rightarrow> nat \<Rightarrow> nat" where
  "get_segment sizeof_Entry index = index div SEGMENT_ELEMENTS sizeof_Entry"

definition get_offset :: "nat \<Rightarrow> nat \<Rightarrow> nat" where
  "get_offset sizeof_Entry index = index mod SEGMENT_ELEMENTS sizeof_Entry"

definition add_segment :: "nat \<Rightarrow> 'a SegmentedVector \<Rightarrow> 'a SegmentedVector" where
  "add_segment sizeof_Entry v =
     v\<lparr>segments := segments v @ [replicate (SEGMENT_ELEMENTS sizeof_Entry) None]\<rparr>"

text \<open>
  \<open>operator[]\<close>: \<open>None\<close> stands for the failed assertion \<open>index < the_size\<close> and
  for a read outside the allocated segments or of a slot that holds no entry.
\<close>

definition subscript :: "nat \<Rightarrow> 'a SegmentedVector \<Rightarrow> nat \<Rightarrow> 'a option" where
  "subscript sizeof_Entry v index =
     (if index < the_size v then
        (let segment = get_segment sizeof_Entry index;
             offset = get_offset sizeof_Entry index
         in if segment < length (segments v) \<and> offset < length (segments v ! segment)
            then segments v ! segment ! offset
            else None)
      else None)"

definition size_of :: "'a SegmentedVector \<Rightarrow> nat" where
  "size_of v = the_size v"

text \<open>
  \<open>push_back\<close>: \<open>None\<close> stands for a write through a segment pointer that does not
  exist (the source has no check there).
\<close>

definition push_back :: "nat \<Rightarrow> 'a \<Rightarrow> 'a SegmentedVector \<Rightarrow> 'a SegmentedVector option" where
  "push_back sizeof_Entry entry v =
     (let segment = get_segment sizeof_Entry (the_size v);
          offset = get_offset sizeof_Entry (the_size v);
          v1 = (if segment = length (segments v) then add_segment sizeof_Entry v else v)
      in if segment < length (segments v1) \<and> offset < length (segments v1 ! segment)
         then Some (v1\<lparr>segments :=
                          (segments v1)[segment := (segments v1 ! segment)[offset := Some entry]],
                        the_size := the_size v1 + 1\<rparr>)
         else None)"

text \<open>
  \<open>pop_back\<close> destroys \<open>operator[](the_size - 1)\<close> and decrements \<open>the_size\<close>.  On
  an empty vector \<open>the_size - 1\<close> wraps around to the largest \<open>size_t\<close>, for which the
  assertion of \<open>operator[]\<close> fails: the result is \<open>None\<close>, as it is when the slot
  holds no entry to destroy.  The segment stays allocated.
\<close>

definition pop_back :: "nat \<Rightarrow> 'a SegmentedVector \<Rightarrow> 'a SegmentedVector option" where
  "pop_back sizeof_Entry v =
     (if the_size v = 0 then None
      else case subscript sizeof_Entry v (the_size v - 1) of
             None \<Rightarrow> None
           | Some entry \<Rightarrow>
               (let segment = get_segment sizeof_Entry (the_size v - 1);
                    offset = get_offset sizeof_Entry (the_size v - 1)
                in Some (v\<lparr>segments :=
                               (segments v)[segment := (segments v ! segment)[offset := None]],
                             the_size := the_size v - 1\<rparr>)))"

subsection \<open>Sequences of operations and the reference vector\<close>

datatype 'a vector_op = Push 'a | Pop

fun apply_op :: "nat \<Rightarrow> 'a vector_op \<Rightarrow> 'a SegmentedVector \<Rightarrow> 'a SegmentedVector option" where
  "apply_op sizeof_Entry (Push entry) v = push_back sizeof_Entry entry v"
| "apply_op sizeof_Entry Pop v = pop_back sizeof_Entry v"

fun run_ops :: "nat \<Rightarrow> 'a vector_op list \<Rightarrow> 'a SegmentedVector \<Rightarrow> 'a SegmentedVector option" where
  "run_ops sizeof_Entry [] v = Some v"
| "run_ops sizeof_Entry (o1 # os) v =
     (case apply_op sizeof_Entry o1 v of
        None \<Rightarrow> None
      | Some v' \<Rightarrow> run_ops sizeof_Entry os v')"

text \<open>
  The reference: a plain vector as a list, \<open>push_back\<close> appends, \<open>pop_back\<close> removes
  the last element and is undefined (\<open>None\<close>) on the empty vector.
\<close>

fun reference_apply :: "'a vector_op \<Rightarrow> 'a list \<Rightarrow> 'a list option" where
  "reference_apply (Push entry) xs = Some (xs @ [entry])"
| "reference_apply Pop xs = (if xs = [] then None else Some (butlast xs))"

fun reference_run :: "'a vector_op list \<Rightarrow> 'a list \<Rightarrow> 'a list option" where
  "reference_run [] xs = Some xs"
| "reference_run (o1 # os) xs =
     (case reference_apply o1 xs of
        None \<Rightarrow> None
      | Some xs' \<Rightarrow> reference_run os xs')"

text \<open>The vector \<open>v\<close> represents the list \<open>xs\<close>.\<close>

definition represents :: "nat \<Rightarrow> 'a SegmentedVector \<Rightarrow> 'a list \<Rightarrow> bool" where
  "represents sizeof_Entry v xs \<longleftrightarrow>
     the_size v = length xs \<and>
     (\<forall>s \<in> set (segments v). length s = SEGMENT_ELEMENTS sizeof_Entry) \<and>
     length xs \<le> length (segments v) * SEGMENT_ELEMENTS sizeof_Entry \<and>
     (\<forall>i < length xs.
        segments v ! (i div SEGMENT_ELEMENTS sizeof_Entry) ! (i mod SEGMENT_ELEMENTS sizeof_Entry)
          = Some (xs ! i))"


lemma SEGMENT_ELEMENTS_pos: "0 < SEGMENT_ELEMENTS sz"
  by (simp add: SEGMENT_ELEMENTS_def)

lemma slot_eq_iff:
  assumes "0 < (e::nat)"
  shows "i div e = j div e \<and> i mod e = j mod e \<longleftrightarrow> i = j"
  by (metis div_mult_mod_eq)

lemma represents_new: "represents sz SegmentedVector_new []"
  by (simp add: represents_def SegmentedVector_new_def)

lemma represents_subscript:
  assumes "represents sz v xs" and "i < length xs"
  shows "subscript sz v i = Some (xs ! i)"
proof -
  let ?e = "SEGMENT_ELEMENTS sz"
  have e: "0 < ?e" by (rule SEGMENT_ELEMENTS_pos)
  from assms have "i < length (segments v) * ?e" by (simp add: represents_def)
  then have seg: "i div ?e < length (segments v)"
    using e by (simp add: less_mult_imp_div_less)
  then have "segments v ! (i div ?e) \<in> set (segments v)" by simp
  with assms(1) have len: "length (segments v ! (i div ?e)) = ?e" by (simp add: represents_def)
  have off: "i mod ?e < ?e" using e by simp
  from assms seg len off show ?thesis
    by (simp add: subscript_def represents_def get_segment_def get_offset_def Let_def)
qed

lemma represents_push_back:
  assumes "represents sz v xs"
  shows "\<exists>v'. push_back sz x v = Some v' \<and> represents sz v' (xs @ [x])"
proof -
  let ?e = "SEGMENT_ELEMENTS sz"
  let ?n = "length xs"
  have e: "0 < ?e" by (rule SEGMENT_ELEMENTS_pos)
  from assms have size: "the_size v = ?n"
    and lens: "\<forall>s \<in> set (segments v). length s = ?e"
    and cap: "?n \<le> length (segments v) * ?e"
    and vals: "\<forall>i < ?n. segments v ! (i div ?e) ! (i mod ?e) = Some (xs ! i)"
    by (simp_all add: represents_def)
  define v1 where "v1 = (if ?n div ?e = length (segments v) then add_segment sz v else v)"
  have segs1: "segments v1 = (if ?n div ?e = length (segments v)
       then segments v @ [replicate ?e None] else segments v)"
    by (simp add: v1_def add_segment_def)
  have size1: "the_size v1 = ?n" by (simp add: v1_def add_segment_def size)
  have le: "?n div ?e \<le> length (segments v)"
    using cap e by (metis div_le_mono div_mult_self_is_m)
  have seg1: "?n div ?e < length (segments v1)"
    using le by (simp add: segs1)
  have lens1: "\<forall>s \<in> set (segments v1). length s = ?e"
    using lens by (simp add: segs1)
  have len1: "length (segments v1 ! (?n div ?e)) = ?e"
    using seg1 lens1 by simp
  have off: "?n mod ?e < ?e" using e by simp
  have old1: "segments v1 ! (i div ?e) = segments v ! (i div ?e)" if "i < ?n" for i
  proof -
    from that cap have "i < length (segments v) * ?e" by simp
    then have "i div ?e < length (segments v)" using e by (simp add: less_mult_imp_div_less)
    then show ?thesis by (simp add: segs1 nth_append)
  qed
  define v' where "v' = v1\<lparr>segments :=
        (segments v1)[?n div ?e := (segments v1 ! (?n div ?e))[?n mod ?e := Some x]],
      the_size := the_size v1 + 1\<rparr>"
  have push: "push_back sz x v = Some v'"
    using seg1 len1 off
    by (simp add: push_back_def Let_def get_segment_def get_offset_def size v1_def v'_def)
  have cap': "Suc ?n \<le> length (segments v') * ?e"
  proof -
    have "?n < Suc (?n div ?e) * ?e"
      using e by (metis dividend_less_div_times mult.commute mult_Suc)
    also have "\<dots> \<le> length (segments v1) * ?e"
      using seg1 by (intro mult_le_mono1) simp
    finally show ?thesis by (simp add: v'_def)
  qed
  have vals': "segments v' ! (i div ?e) ! (i mod ?e) = Some ((xs @ [x]) ! i)"
    if "i < Suc ?n" for i
  proof (cases "i = ?n")
    case True
    then show ?thesis using seg1 len1 off by (simp add: v'_def)
  next
    case False
    with that have i: "i < ?n" by simp
    from False slot_eq_iff [OF e, of i ?n]
    have ne: "i div ?e \<noteq> ?n div ?e \<or> i mod ?e \<noteq> ?n mod ?e" by blast
    have "segments v' ! (i div ?e) ! (i mod ?e) = segments v1 ! (i div ?e) ! (i mod ?e)"
    proof (cases "i div ?e = ?n div ?e")
      case True
      with ne have "i mod ?e \<noteq> ?n mod ?e" by simp
      with True seg1 show ?thesis by (simp add: v'_def)
    next
      case False
      then show ?thesis by (simp add: v'_def)
    qed
    also have "\<dots> = Some (xs ! i)" using i vals old1 by simp
    finally show ?thesis using i by (simp add: nth_append)
  qed
  have lens': "\<forall>s \<in> set (segments v'). length s = ?e"
  proof
    fix s assume "s \<in> set (segments v')"
    then have "s \<in> set ((segments v1)[?n div ?e := (segments v1 ! (?n div ?e))[?n mod ?e := Some x]])"
      by (simp add: v'_def)
    then have "s = (segments v1 ! (?n div ?e))[?n mod ?e := Some x] \<or> s \<in> set (segments v1)"
      by (auto dest: set_update_subset_insert [THEN subsetD])
    then show "length s = ?e" using len1 lens1 by auto
  qed
  have "represents sz v' (xs @ [x])"
    unfolding represents_def using cap' vals' lens' by (simp add: v'_def size1)
  with push show ?thesis by blast
qed

lemma represents_pop_back:
  assumes "represents sz v xs" and "xs \<noteq> []"
  shows "\<exists>v'. pop_back sz v = Some v' \<and> represents sz v' (butlast xs)"
proof -
  let ?e = "SEGMENT_ELEMENTS sz"
  let ?n = "length xs - 1"
  have e: "0 < ?e" by (rule SEGMENT_ELEMENTS_pos)
  from assms have size: "the_size v = length xs" and pos: "0 < length xs"
    and lens: "\<forall>s \<in> set (segments v). length s = ?e"
    and cap: "length xs \<le> length (segments v) * ?e"
    and vals: "\<forall>i < length xs. segments v ! (i div ?e) ! (i mod ?e) = Some (xs ! i)"
    by (simp_all add: represents_def)
  have sub: "subscript sz v ?n = Some (xs ! ?n)"
    using assms pos by (intro represents_subscript) simp_all
  define v' where "v' = v\<lparr>segments :=
        (segments v)[?n div ?e := (segments v ! (?n div ?e))[?n mod ?e := None]],
      the_size := the_size v - 1\<rparr>"
  have pop: "pop_back sz v = Some v'"
    using pos sub by (simp add: pop_back_def size Let_def get_segment_def get_offset_def v'_def)
  have vals': "segments v' ! (i div ?e) ! (i mod ?e) = Some (butlast xs ! i)" if "i < ?n" for i
  proof -
    from that slot_eq_iff [OF e, of i ?n]
    have ne: "i div ?e \<noteq> ?n div ?e \<or> i mod ?e \<noteq> ?n mod ?e" by auto
    from that cap have "?n < length (segments v) * ?e" by simp
    then have seg: "?n div ?e < length (segments v)" using e by (simp add: less_mult_imp_div_less)
    have "segments v' ! (i div ?e) ! (i mod ?e) = segments v ! (i div ?e) ! (i mod ?e)"
    proof (cases "i div ?e = ?n div ?e")
      case True
      with ne have "i mod ?e \<noteq> ?n mod ?e" by simp
      with True seg show ?thesis by (simp add: v'_def)
    next
      case False
      then show ?thesis by (simp add: v'_def)
    qed
    also have "\<dots> = Some (xs ! i)" using that vals by simp
    finally show ?thesis using that by (simp add: nth_butlast)
  qed
  have lens': "\<forall>s \<in> set (segments v'). length s = ?e"
  proof
    fix s assume "s \<in> set (segments v')"
    then have "s \<in> set ((segments v)[?n div ?e := (segments v ! (?n div ?e))[?n mod ?e := None]])"
      by (simp add: v'_def)
    then have "s = (segments v ! (?n div ?e))[?n mod ?e := None] \<or> s \<in> set (segments v)"
      by (auto dest: set_update_subset_insert [THEN subsetD])
    moreover have "length ((segments v ! (?n div ?e))[?n mod ?e := None]) = ?e"
    proof -
      from pos cap have "?n < length (segments v) * ?e" by arith
      then have "?n div ?e < length (segments v)" using e by (simp add: less_mult_imp_div_less)
      then have "segments v ! (?n div ?e) \<in> set (segments v)" by simp
      with lens show ?thesis by simp
    qed
    ultimately show "length s = ?e" using lens by auto
  qed
  have "represents sz v' (butlast xs)"
    unfolding represents_def using cap vals' lens' pos by (simp add: v'_def size)
  with pop show ?thesis by blast
qed

lemma pop_back_empty:
  assumes "represents sz v []"
  shows "pop_back sz v = None"
  using assms by (simp add: pop_back_def represents_def)

lemma run_ops_refines:
  assumes "represents sz v xs"
  shows "case reference_run ops xs of
           None \<Rightarrow> run_ops sz ops v = None
         | Some ys \<Rightarrow> (\<exists>v'. run_ops sz ops v = Some v' \<and> represents sz v' ys)"
  using assms
proof (induction ops arbitrary: v xs)
  case Nil
  then show ?case by simp
next
  case (Cons o1 os)
  show ?case
  proof (cases o1)
    case (Push x)
    from represents_push_back [OF Cons.prems, of x]
    obtain v' where v': "push_back sz x v = Some v'" "represents sz v' (xs @ [x])" by blast
    from Cons.IH [OF v'(2)] v'(1) show ?thesis
      by (simp add: Push split: option.splits)
  next
    case Pop
    show ?thesis
    proof (cases "xs = []")
      case True
      with Cons.prems Pop show ?thesis by (simp add: pop_back_empty)
    next
      case False
      from represents_pop_back [OF Cons.prems False]
      obtain v' where v': "pop_back sz v = Some v'" "represents sz v' (butlast xs)" by blast
      from Cons.IH [OF v'(2)] v'(1) False show ?thesis
        by (simp add: Pop split: option.splits)
    qed
  qed
qed

text \<open>
  Claim C6.  After any sequence of \<open>push_back\<close> and \<open>pop_back\<close> operations on an
  empty segmented vector, for any entry size, the vector shows what a plain vector shows
  after the same sequence: \<open>size()\<close> is the number of live elements and
  \<open>operator[](i)\<close> is the \<open>i\<close>-th live element, in the order pushed.  A sequence
  that pops the empty reference vector fails on the segmented vector as well.
\<close>

theorem SegmentedVector_refines_vector:
  "case reference_run ops [] of
     None \<Rightarrow> run_ops sizeof_Entry ops SegmentedVector_new = None
   | Some xs \<Rightarrow>
       (\<exists>v. run_ops sizeof_Entry ops SegmentedVector_new = Some v \<and>
            size_of v = length xs \<and>
            (\<forall>i < length xs. subscript sizeof_Entry v i = Some (xs ! i)))"
proof (cases "reference_run ops []")
  case None
  with run_ops_refines [OF represents_new, of sizeof_Entry ops] show ?thesis by simp
next
  case (Some xs)
  with run_ops_refines [OF represents_new, of sizeof_Entry ops]
  obtain v where v: "run_ops sizeof_Entry ops SegmentedVector_new = Some v"
      "represents sizeof_Entry v xs" by auto
  from v(2) have "size_of v = length xs" by (simp add: size_of_def represents_def)
  moreover from v(2) have "\<forall>i < length xs. subscript sizeof_Entry v i = Some (xs ! i)"
    by (simp add: represents_subscript)
  ultimately show ?thesis using Some v(1) by simp
qed

theorem SegmentedVector_refines_vector_witness:
  "reference_run [Push (1::nat), Push 2, Push 3, Pop, Pop, Push 5] [] = Some [1, 5] \<and>
   (\<exists>v. run_ops 4096 [Push (1::nat), Push 2, Push 3, Pop, Pop, Push 5] SegmentedVector_new = Some v \<and>
        size_of v = 2 \<and> subscript 4096 v 0 = Some 1 \<and> subscript 4096 v 1 = Some 5)"
proof -
  let ?ops = "[Push (1::nat), Push 2, Push 3, Pop, Pop, Push 5]"
  have r: "reference_run ?ops [] = Some [1, 5]" by simp
  with SegmentedVector_refines_vector [where ops = ?ops and sizeof_Entry = 4096]
  obtain v where v: "run_ops 4096 ?ops SegmentedVector_new = Some v" "size_of v = 2"
      "\<forall>i < 2. subscript 4096 v i = Some ([1, 5] ! i)"
    by auto
  from v(3) have "subscript 4096 v 0 = Some 1" and "subscript 4096 v 1 = Some 5"
    by simp_all
  with r v(1,2) show ?thesis by blast
qed

section \<open>Operator-counting heuristic: construction
  (\<open>operator_counting/operator_counting_heuristic.cc\<close>)\<close>

text \<open>
  Modelled from the spec: \<open>utils::verify_list_not_empty\<close> of
  \<open>utils/component_errors.h\<close>, which is not among the sources.  The specification
  lists the empty constraint-generator list as an invalid configuration, reported as
  an input error at construction time, which ends the process with the input-error
  exit code.
\<close>

definition verify_list_not_empty :: "'a list \<Rightarrow> string \<Rightarrow> ExitCode + unit" where
  "verify_list_not_empty list name = (if list = [] then Inl SEARCH_INPUT_ERROR else Inr ())"

text \<open>
  The linear program handed to the solver.  A bound or coefficient is a whole number
  or the solver's infinity; no arithmetic is done on them here.
\<close>

datatype lp_number = Finite int | Infinity

datatype LPObjectiveSense = MAXIMIZE | MINIMIZE

record LPVariable =
  lower_bound :: lp_number
  upper_bound :: lp_number
  objective_coefficient :: lp_number
  is_integer :: bool

record 'c LinearProgram =
  sense :: LPObjectiveSense
  variables :: "LPVariable list"
  constraints :: "'c list"
  infinity :: lp_number

record ('g, 'c) OperatorCountingHeuristic =
  constraint_generators :: "'g list"
  mip_gap :: int
  loaded_problem :: "'c LinearProgram"

text \<open>
  The constructor.  \<open>base\<close> is the outcome of the base-class constructor
  \<open>Heuristic\<close>, which runs first and is not among the sources: \<open>Some code\<close> when it
  ends the process, \<open>None\<close> when it returns.  \<open>initialize_constraints\<close> is the
  virtual method of the constraint generators, \<open>operator_costs\<close> lists
  \<open>op.get_cost()\<close> for the operators of the task in order.
\<close>

definition OperatorCountingHeuristic_new ::
  "ExitCode option \<Rightarrow> ('g \<Rightarrow> 'c LinearProgram \<Rightarrow> 'c LinearProgram) \<Rightarrow> int list \<Rightarrow>
   'g list \<Rightarrow> bool \<Rightarrow> ExitCode + ('g, 'c) OperatorCountingHeuristic" where
  "OperatorCountingHeuristic_new base initialize_constraints operator_costs
       generators use_integer_operator_counts =
     (case base of
        Some code \<Rightarrow> Inl code
      | None \<Rightarrow>
         (case verify_list_not_empty generators ''constraint_generators'' of
            Inl code \<Rightarrow> Inl code
          | Inr _ \<Rightarrow>
             (let vars = map (\<lambda>op_cost.
                     \<lparr>lower_bound = Finite 0, upper_bound = Infinity,
                      objective_coefficient = Finite op_cost,
                      is_integer = use_integer_operator_counts\<rparr>) operator_costs;
                  lp = \<lparr>sense = MINIMIZE, variables = vars, constraints = [],
                        infinity = Infinity\<rparr>;
                  lp1 = fold initialize_constraints generators lp
              in Inr \<lparr>constraint_generators = generators, mip_gap = 0,
                      loaded_problem = lp1\<rparr>)))"

text \<open>
  Claim C8.  When the base-class constructor returns, constructing the heuristic with
  an empty list of constraint generators ends with the input error and yields no
  heuristic object; with a non-empty list the constructor returns the object, which
  holds the generators, and raises no error.
\<close>

theorem OperatorCountingHeuristic_new_empty_list:
  "case OperatorCountingHeuristic_new None init costs generators use_int of
     Inl code \<Rightarrow> code = SEARCH_INPUT_ERROR \<and> generators = []
   | Inr h \<Rightarrow> generators \<noteq> [] \<and> constraint_generators h = generators"
  by (simp add: OperatorCountingHeuristic_new_def verify_list_not_empty_def Let_def)

theorem OperatorCountingHeuristic_new_witness:
  "OperatorCountingHeuristic_new None (\<lambda>g lp. lp\<lparr>constraints := g # constraints lp\<rparr>) [1, 2]
      ([] :: nat list) False = Inl SEARCH_INPUT_ERROR \<and>
   OperatorCountingHeuristic_new None (\<lambda>g lp. lp\<lparr>constraints := g # constraints lp\<rparr>) [1, 2]
      [7 :: nat] False =
     Inr \<lparr>constraint_generators = [7], mip_gap = 0,
          loaded_problem = \<lparr>sense = MINIMIZE,
            variables = [\<lparr>lower_bound = Finite 0, upper_bound = Infinity,
                           objective_coefficient = Finite 1, is_integer = False\<rparr>,
                         \<lparr>lower_bound = Finite 0, upper_bound = Infinity,
                           objective_coefficient = Finite 2, is_integer = False\<rparr>],
            constraints = [7], infinity = Infinity\<rparr>\<rparr>"
  using OperatorCountingHeuristic_new_empty_list
          [where init = "\<lambda>g lp. lp\<lparr>constraints := g # constraints lp\<rparr>" and costs = "[1, 2]"
             and generators = "[] :: nat list" and use_int = False]
        OperatorCountingHeuristic_new_empty_list
          [where init = "\<lambda>g lp. lp\<lparr>constraints := g # constraints lp\<rparr>" and costs = "[1, 2]"
             and generators = "[7 :: nat]" and use_int = False]
  by (simp add: OperatorCountingHeuristic_new_def verify_list_not_empty_def Let_def)

section \<open>Max heuristic (\<open>heuristics/max_heuristic.cc\<close>)\<close>

subsection \<open>Propositions, unary operators and the queue\<close>

type_synonym PropID = nat
type_synonym OpID = nat

text \<open>
  The fields of \<open>Proposition\<close> and \<open>UnaryOperator\<close> that \<open>max_heuristic.cc\<close> reads
  and writes (the structs are declared in \<open>relaxation_heuristic.h\<close>).  The costs and
  counters are \<open>int\<close> in the source; here they are integers, and the one sum the
  source computes on them wraps around as it does there.  The field \<open>cost\<close> of a
  unary operator is \<open>op_cost\<close>.
\<close>

record Proposition =
  cost :: int
  is_goal :: bool
  precondition_of :: nat
  num_precondition_occurences :: nat

record UnaryOperator =
  num_preconditions :: int
  effect :: PropID
  base_cost :: int
  op_cost :: int
  unsatisfied_preconditions :: int

text \<open>
  Modelled from the spec: the priority queue \<open>queue\<close> of the heuristic (its class is
  not among the sources).  It holds pairs of a cost and a proposition; \<open>pop\<close> removes
  an entry of least cost, the oldest one among entries of equal cost.
\<close>

type_synonym PriorityQueue = "(int \<times> PropID) list"

definition queue_push :: "int \<Rightarrow> PropID \<Rightarrow> PriorityQueue \<Rightarrow> PriorityQueue" where
  "queue_push key prop_id q = q @ [(key, prop_id)]"

fun first_least :: "int \<times> PropID \<Rightarrow> PriorityQueue \<Rightarrow> int \<times> PropID" where
  "first_least best [] = best"
| "first_least best (entry # q) =
     (if fst entry < fst best then first_least entry q else first_least best q)"

definition queue_pop :: "PriorityQueue \<Rightarrow> (int \<times> PropID) \<times> PriorityQueue" where
  "queue_pop q = (let top_pair = first_least (hd q) (tl q) in (top_pair, remove1 top_pair q))"

record HSPMaxHeuristic =
  propositions :: "Proposition list"
  unary_operators :: "UnaryOperator list"
  precondition_of_pool :: "OpID list"
  goal_propositions :: "PropID list"
  queue :: PriorityQueue

text \<open>
  Indexing outside \<open>propositions\<close>, \<open>unary_operators\<close> or the pool is undefined
  behaviour in the source; the accessors return \<open>None\<close> there, and so does every
  function that would perform such an access.
\<close>

definition get_proposition :: "HSPMaxHeuristic \<Rightarrow> PropID \<Rightarrow> Proposition option" where
  "get_proposition h prop_id =
     (if prop_id < length (propositions h) then Some (propositions h ! prop_id) else None)"

definition get_operator :: "HSPMaxHeuristic \<Rightarrow> OpID \<Rightarrow> UnaryOperator option" where
  "get_operator h op_id =
     (if op_id < length (unary_operators h) then Some (unary_operators h ! op_id) else None)"

definition get_slice :: "OpID list \<Rightarrow> nat \<Rightarrow> nat \<Rightarrow> OpID list option" where
  "get_slice pool index n =
     (if index + n \<le> length pool then Some (take n (drop index pool)) else None)"

text \<open>A loop over a list whose body may fail: the first failure ends it.\<close>

fun for_each :: "('a \<Rightarrow> 's \<Rightarrow> 's option) \<Rightarrow> 'a list \<Rightarrow> 's \<Rightarrow> 's option" where
  "for_each body [] s = Some s"
| "for_each body (x # xs) s =
     (case body x s of None \<Rightarrow> None | Some s' \<Rightarrow> for_each body xs s')"

text \<open>
  Modelled from the spec: \<open>enqueue_if_necessary\<close> of \<open>max_heuristic.h\<close>, which is not
  among the sources.  The specification records a cost of \<open>-1\<close> for an unreached
  proposition, enqueues a proposition at a cost, and treats a popped entry as stale
  when the proposition's cost is below the entry's: so enqueuing at a cost is
  necessary when the proposition is unreached or its cost is higher, and it then
  records the cost and pushes the entry.
\<close>

definition enqueue_if_necessary :: "PropID \<Rightarrow> int \<Rightarrow> HSPMaxHeuristic \<Rightarrow> HSPMaxHeuristic option" where
  "enqueue_if_necessary prop_id c h =
     (case get_proposition h prop_id of
        None \<Rightarrow> None
      | Some prop \<Rightarrow>
          if cost prop = - 1 \<or> cost prop > c
          then Some (h\<lparr>propositions := (propositions h)[prop_id := prop\<lparr>cost := c\<rparr>],
                       queue := queue_push c prop_id (queue h)\<rparr>)
          else Some h)"

subsection \<open>\<open>setup_exploration_queue\<close> and \<open>setup_exploration_queue_state\<close>\<close>

text \<open>The body of the loop over \<open>unary_operators\<close>, for the operator at index \<open>i\<close>.\<close>

definition setup_operator :: "nat \<Rightarrow> HSPMaxHeuristic \<Rightarrow> HSPMaxHeuristic option" where
  "setup_operator i h =
     (case get_operator h i of
        None \<Rightarrow> None
      | Some op \<Rightarrow>
          (let op1 = op\<lparr>unsatisfied_preconditions := num_preconditions op,
                        op_cost := base_cost op\<rparr>;
               h1 = h\<lparr>unary_operators := (unary_operators h)[i := op1]\<rparr>
           in if unsatisfied_preconditions op1 = 0
              then enqueue_if_necessary (effect op1) (base_cost op1) h1
              else Some h1))"

definition setup_exploration_queue :: "HSPMaxHeuristic \<Rightarrow> HSPMaxHeuristic option" where
  "setup_exploration_queue h =
     (let h1 = h\<lparr>queue := []\<rparr>;
          h2 = h1\<lparr>propositions := map (\<lambda>prop. prop\<lparr>cost := - 1\<rparr>) (propositions h1)\<rparr>
      in for_each setup_operator [0..<length (unary_operators h2)] h2)"

text \<open>
  A state is the list of its facts; \<open>get_prop_id\<close> (of \<open>relaxation_heuristic.h\<close>)
  maps a fact to its proposition.
\<close>

definition setup_exploration_queue_state ::
  "('fact \<Rightarrow> PropID) \<Rightarrow> 'fact list \<Rightarrow> HSPMaxHeuristic \<Rightarrow> HSPMaxHeuristic option" where
  "setup_exploration_queue_state get_prop_id state h =
     for_each (\<lambda>fact. enqueue_if_necessary (get_prop_id fact) 0) state h"

subsection \<open>\<open>relaxed_exploration\<close>\<close>

text \<open>
  The body of the loop over the operators that have the popped proposition as a
  precondition.  The sum \<open>base_cost + prop_cost\<close> is the sum \<open>int_add\<close> of the
  source's type.  The counter \<open>unsatisfied_preconditions\<close> starts at the number of
  preconditions and is decremented as an unbounded integer: leaving the range of
  \<open>int\<close> would take more than \<open>2 ^ 31\<close> decrements of one operator.
\<close>

definition trigger_operator :: "int \<Rightarrow> OpID \<Rightarrow> HSPMaxHeuristic \<Rightarrow> HSPMaxHeuristic option" where
  "trigger_operator prop_cost op_id h =
     (case get_operator h op_id of
        None \<Rightarrow> None
      | Some unary_op \<Rightarrow>
          (let op1 = unary_op\<lparr>op_cost :=
                         max (op_cost unary_op) (int_add (base_cost unary_op) prop_cost)\<rparr>;
               op2 = op1\<lparr>unsatisfied_preconditions := unsatisfied_preconditions op1 - 1\<rparr>;
               h1 = h\<lparr>unary_operators := (unary_operators h)[op_id := op2]\<rparr>
           in if unsatisfied_preconditions op2 = 0
              then enqueue_if_necessary (effect op2) (op_cost op2) h1
              else Some h1))"

text \<open>The number of queue entries plus the number of operators that still wait for a
  precondition: it decreases with every iteration of the exploration loop.\<close>

definition waiting :: "UnaryOperator \<Rightarrow> nat" where
  "waiting op = (if 0 < unsatisfied_preconditions op then 1 else 0)"

definition exploration_measure :: "HSPMaxHeuristic \<Rightarrow> nat" where
  "exploration_measure h = length (queue h) + sum_list (map waiting (unary_operators h))"

lemma first_least_in: "first_least best q \<in> set (best # q)"
  by (induction q arbitrary: best) auto

lemma queue_pop_length:
  assumes "q \<noteq> []"
  shows "Suc (length (snd (queue_pop q))) = length q"
proof -
  from assms first_least_in [of "hd q" "tl q"] have "first_least (hd q) (tl q) \<in> set q"
    by (cases q) simp_all
  then show ?thesis
    using assms by (simp add: queue_pop_def Let_def length_remove1)
qed

lemma enqueue_if_necessary_measure:
  assumes "enqueue_if_necessary p c h = Some h'"
  shows "exploration_measure h' \<le> Suc (exploration_measure h)"
    and "unary_operators h' = unary_operators h"
  using assms
  by (auto simp: enqueue_if_necessary_def exploration_measure_def queue_push_def
      split: option.splits if_splits)

lemma sum_list_waiting_update:
  assumes "i < length ops"
  shows "sum_list (map waiting (ops[i := op'])) + waiting (ops ! i)
       = sum_list (map waiting ops) + waiting op'"
proof -
  have "sum_list ((map waiting ops)[i := waiting op']) =
      sum_list (map waiting ops) + waiting op' - map waiting ops ! i"
    using assms by (intro sum_list_update) simp
  moreover have "map waiting ops ! i \<le> sum_list (map waiting ops)"
    using assms by (intro member_le_sum_list) simp_all
  ultimately show ?thesis
    using assms by (simp add: map_update)
qed

lemma trigger_operator_measure:
  assumes "trigger_operator pc op_id h = Some h'"
  shows "exploration_measure h' \<le> exploration_measure h"
proof -
  from assms obtain u where u: "get_operator h op_id = Some u"
    by (auto simp: trigger_operator_def split: option.splits)
  then have i: "op_id < length (unary_operators h)" and u_def: "u = unary_operators h ! op_id"
    by (auto simp: get_operator_def split: if_splits)
  define u2 where "u2 = u\<lparr>op_cost := max (op_cost u) (int_add (base_cost u) pc),
      unsatisfied_preconditions := unsatisfied_preconditions u - 1\<rparr>"
  define h1 where "h1 = h\<lparr>unary_operators := (unary_operators h)[op_id := u2]\<rparr>"
  have m: "sum_list (map waiting (unary_operators h1)) + waiting u
      = sum_list (map waiting (unary_operators h)) + waiting u2"
    using sum_list_waiting_update [OF i, of u2] by (simp add: h1_def u_def)
  show ?thesis
  proof (cases "unsatisfied_preconditions u2 = 0")
    case True
    then have w: "waiting u2 = 0" "waiting u = 1" by (simp_all add: waiting_def u2_def)
    from assms u True have "enqueue_if_necessary (effect u2) (op_cost u2) h1 = Some h'"
      by (simp add: trigger_operator_def Let_def u2_def h1_def)
    from enqueue_if_necessary_measure(1) [OF this]
    have "exploration_measure h' \<le> Suc (exploration_measure h1)" .
    also have "\<dots> = exploration_measure h"
      using m w by (simp add: exploration_measure_def h1_def)
    finally show ?thesis .
  next
    case False
    with assms u have h': "h' = h1"
      by (simp add: trigger_operator_def Let_def u2_def h1_def)
    have "waiting u2 \<le> waiting u" by (simp add: waiting_def u2_def)
    with m show ?thesis by (simp add: h' exploration_measure_def h1_def)
  qed
qed

lemma for_each_trigger_measure:
  "for_each (trigger_operator pc) ids h = Some h' \<Longrightarrow>
   exploration_measure h' \<le> exploration_measure h"
proof (induction ids arbitrary: h)
  case Nil
  then show ?case by simp
next
  case (Cons i ids)
  then obtain h1 where h1: "trigger_operator pc i h = Some h1"
      "for_each (trigger_operator pc) ids h1 = Some h'"
    by (auto split: option.splits)
  from Cons.IH [OF h1(2)] trigger_operator_measure [OF h1(1)] show ?case by simp
qed

text \<open>
  The loop of \<open>relaxed_exploration\<close>, with the local variable \<open>unsolved_goals\<close> as
  an argument.  The condition \<open>prop->is_goal && --unsolved_goals == 0\<close> decrements
  the counter only for a goal proposition.  The three \<open>assert\<close> statements of the
  loop, which a release build compiles out, are not branches of the model.
\<close>

function relaxed_exploration_loop :: "int \<Rightarrow> HSPMaxHeuristic \<Rightarrow> HSPMaxHeuristic option" where
  "relaxed_exploration_loop unsolved_goals h =
     (if queue h = [] then Some h
      else
        (let top_pair = fst (queue_pop (queue h));
             h1 = h\<lparr>queue := snd (queue_pop (queue h))\<rparr>;
             distance = fst top_pair;
             prop_id = snd top_pair
         in case get_proposition h1 prop_id of
              None \<Rightarrow> None
            | Some prop \<Rightarrow>
                (let prop_cost = cost prop
                 in if prop_cost < distance then relaxed_exploration_loop unsolved_goals h1
                    else if is_goal prop \<and> unsolved_goals - 1 = 0 then Some h1
                    else
                      (case get_slice (precondition_of_pool h1) (precondition_of prop)
                              (num_precondition_occurences prop) of
                         None \<Rightarrow> None
                       | Some slice \<Rightarrow>
                           (case for_each (trigger_operator prop_cost) slice h1 of
                              None \<Rightarrow> None
                            | Some h2 \<Rightarrow>
                                relaxed_exploration_loop
                                  (if is_goal prop then unsolved_goals - 1 else unsolved_goals)
                                  h2)))))"
  by pat_completeness auto
termination
proof (relation "measure (\<lambda>(unsolved_goals, h). exploration_measure h)")
  show "wf (measure (\<lambda>(unsolved_goals, h). exploration_measure h))" by simp
next
  fix unsolved_goals :: int and h :: HSPMaxHeuristic and h1
  assume "queue h \<noteq> []" and "h1 = h\<lparr>queue := snd (queue_pop (queue h))\<rparr>"
  then show "((unsolved_goals, h1), (unsolved_goals, h))
      \<in> measure (\<lambda>(unsolved_goals, h). exploration_measure h)"
    using queue_pop_length [of "queue h"] by (simp add: exploration_measure_def)
next
  fix unsolved_goals :: int and h :: HSPMaxHeuristic and h1 h2 prop_cost slice
    and p :: Proposition
  assume "queue h \<noteq> []" and h1: "h1 = h\<lparr>queue := snd (queue_pop (queue h))\<rparr>"
    and "for_each (trigger_operator prop_cost) slice h1 = Some h2"
  then have "exploration_measure h2 \<le> exploration_measure h1"
    by (intro for_each_trigger_measure)
  also have "\<dots> < exploration_measure h"
    using \<open>queue h \<noteq> []\<close> queue_pop_length [of "queue h"]
    by (simp add: exploration_measure_def h1)
  finally show "((if is_goal p then unsolved_goals - 1 else unsolved_goals, h2), (unsolved_goals, h))
      \<in> measure (\<lambda>(unsolved_goals, h). exploration_measure h)"
    by simp
qed

definition relaxed_exploration :: "HSPMaxHeuristic \<Rightarrow> HSPMaxHeuristic option" where
  "relaxed_exploration h = relaxed_exploration_loop (int (length (goal_propositions h))) h"

subsection \<open>\<open>compute_heuristic\<close>\<close>

text \<open>
  The value returned: the constant \<open>DEAD_END\<close> or an estimate.
\<close>

datatype heuristic_value = DEAD_END | Estimate int

fun goal_cost_loop :: "PropID list \<Rightarrow> int \<Rightarrow> HSPMaxHeuristic \<Rightarrow> heuristic_value option" where
  "goal_cost_loop [] total_cost h = Some (Estimate total_cost)"
| "goal_cost_loop (goal_id # goal_ids) total_cost h =
     (case get_proposition h goal_id of
        None \<Rightarrow> None
      | Some goal \<Rightarrow>
          (let goal_cost = cost goal
           in if goal_cost = - 1 then Some DEAD_END
              else goal_cost_loop goal_ids (max total_cost goal_cost) h))"

text \<open>
  \<open>compute_heuristic\<close> returns the value together with the heuristic object as the
  call leaves it.  \<open>convert_ancestor_state\<close> is taken as the identity (no task
  transformation).
\<close>

definition compute_heuristic ::
  "('fact \<Rightarrow> PropID) \<Rightarrow> HSPMaxHeuristic \<Rightarrow> 'fact list \<Rightarrow> (heuristic_value \<times> HSPMaxHeuristic) option" where
  "compute_heuristic get_prop_id h state =
     (case setup_exploration_queue h of
        None \<Rightarrow> None
      | Some h1 \<Rightarrow>
         (case setup_exploration_queue_state get_prop_id state h1 of
            None \<Rightarrow> None
          | Some h2 \<Rightarrow>
             (case relaxed_exploration h2 of
                None \<Rightarrow> None
              | Some h3 \<Rightarrow>
                 (case goal_cost_loop (goal_propositions h3) 0 h3 of
                    None \<Rightarrow> None
                  | Some v \<Rightarrow> Some (v, h3)))))"

subsection \<open>The algorithm of the specification\<close>

text \<open>
  The four steps of the specification (section 4.4), written after its words and
  apart from the functions above: on the data of the heuristic object, with plain
  list access, sums of integers, and no notion of a failing access.
\<close>

text \<open>Step 1: every proposition cost becomes \<open>-1\<close>, every unary operator gets
  \<open>unsatisfied_preconditions = num_preconditions\<close> and \<open>cost = base_cost\<close>; the
  queue starts empty.\<close>

definition reset_operator :: "UnaryOperator \<Rightarrow> UnaryOperator" where
  "reset_operator op =
     op\<lparr>unsatisfied_preconditions := num_preconditions op, op_cost := base_cost op\<rparr>"

definition spec_reset :: "HSPMaxHeuristic \<Rightarrow> HSPMaxHeuristic" where
  "spec_reset h =
     h\<lparr>propositions := map (\<lambda>prop. prop\<lparr>cost := - 1\<rparr>) (propositions h),
       unary_operators := map reset_operator (unary_operators h),
       queue := []\<rparr>"

text \<open>Enqueuing a proposition at a cost records the cost and adds the queue entry,
  unless the proposition is already reached at a cost that is not higher.\<close>

definition spec_enqueue :: "PropID \<Rightarrow> int \<Rightarrow> HSPMaxHeuristic \<Rightarrow> HSPMaxHeuristic" where
  "spec_enqueue prop_id c h =
     (if cost (propositions h ! prop_id) = - 1 \<or> c < cost (propositions h ! prop_id)
      then h\<lparr>propositions :=
                (propositions h)[prop_id := (propositions h ! prop_id)\<lparr>cost := c\<rparr>],
              queue := queue h @ [(c, prop_id)]\<rparr>
      else h)"

text \<open>Step 2: the queue is seeded from a list of propositions with their costs.\<close>

definition spec_seed :: "(PropID \<times> int) list \<Rightarrow> HSPMaxHeuristic \<Rightarrow> HSPMaxHeuristic" where
  "spec_seed seeds h = fold (\<lambda>seed. spec_enqueue (fst seed) (snd seed)) seeds h"

text \<open>The seeds as claim C1 states them: the facts of the state at cost 0, nothing else.\<close>

definition state_seeds :: "('fact \<Rightarrow> PropID) \<Rightarrow> 'fact list \<Rightarrow> (PropID \<times> int) list" where
  "state_seeds get_prop_id state = map (\<lambda>fact. (get_prop_id fact, 0)) state"

text \<open>The further seeds of the source: the effect of every unary operator without
  preconditions at its base cost, in the order of the operators.\<close>

definition operator_seeds :: "UnaryOperator list \<Rightarrow> (PropID \<times> int) list" where
  "operator_seeds ops =
     map (\<lambda>op. (effect op, base_cost op)) (filter (\<lambda>op. num_preconditions op = 0) ops)"

text \<open>Step 3.  The unary operators that have a proposition as a precondition are the
  slice of the shared pool that the proposition names.\<close>

definition operators_with_precondition :: "HSPMaxHeuristic \<Rightarrow> PropID \<Rightarrow> OpID list" where
  "operators_with_precondition h prop_id =
     take (num_precondition_occurences (propositions h ! prop_id))
       (drop (precondition_of (propositions h ! prop_id)) (precondition_of_pool h))"

text \<open>For one such operator: \<open>op.cost\<close> becomes \<open>max(op.cost, base_cost + prop.cost)\<close>,
  \<open>unsatisfied_preconditions\<close> is decremented, and when it reaches zero
  \<open>op.effect\<close> is enqueued at \<open>op.cost\<close>.\<close>

definition spec_trigger :: "PropID \<Rightarrow> OpID \<Rightarrow> HSPMaxHeuristic \<Rightarrow> HSPMaxHeuristic" where
  "spec_trigger prop_id op_id h =
     (let prop = propositions h ! prop_id;
          op = unary_operators h ! op_id;
          raised = op\<lparr>op_cost := max (op_cost op) (base_cost op + cost prop)\<rparr>;
          counted = raised\<lparr>unsatisfied_preconditions := unsatisfied_preconditions raised - 1\<rparr>;
          h1 = h\<lparr>unary_operators := (unary_operators h)[op_id := counted]\<rparr>
      in if unsatisfied_preconditions counted = 0
         then spec_enqueue (effect counted) (op_cost counted) h1
         else h1)"

text \<open>
  The loop: while the queue is not empty, pop \<open>(d, prop)\<close>; skip the entry when
  \<open>prop.cost < d\<close>; for a goal proposition decrement the number of unsolved goals and
  return when it is zero; otherwise treat every unary operator that has \<open>prop\<close> as a
  precondition.  Nothing in these words bounds the number of iterations, so the loop
  is a partial function: \<open>None\<close> stands for a loop that does not end.
\<close>

partial_function (option) spec_exploration :: "int \<Rightarrow> HSPMaxHeuristic \<Rightarrow> HSPMaxHeuristic option" where
  "spec_exploration unsolved_goals h =
     (if queue h = [] then Some h
      else
        (let d = fst (fst (queue_pop (queue h)));
             prop_id = snd (fst (queue_pop (queue h)));
             popped = h\<lparr>queue := snd (queue_pop (queue h))\<rparr>;
             goal_popped = is_goal (propositions popped ! prop_id);
             still_unsolved = (if goal_popped then unsolved_goals - 1 else unsolved_goals)
         in if cost (propositions popped ! prop_id) < d then spec_exploration unsolved_goals popped
            else if goal_popped \<and> still_unsolved = 0 then Some popped
            else spec_exploration still_unsolved
                   (fold (spec_trigger prop_id) (operators_with_precondition popped prop_id) popped)))"

declare spec_exploration.simps [code]

text \<open>Step 4: \<open>DEAD_END\<close> if a goal proposition has cost \<open>-1\<close>, otherwise the maximum
  of the costs of the goal propositions; without goal propositions the result is 0.\<close>

definition spec_result :: "HSPMaxHeuristic \<Rightarrow> heuristic_value" where
  "spec_result h =
     (if \<exists>g \<in> set (goal_propositions h). cost (propositions h ! g) = - 1 then DEAD_END
      else if goal_propositions h = [] then Estimate 0
      else Estimate (Max (set (map (\<lambda>g. cost (propositions h ! g)) (goal_propositions h)))))"

definition spec_max_heuristic ::
  "(PropID \<times> int) list \<Rightarrow> HSPMaxHeuristic \<Rightarrow> (heuristic_value \<times> HSPMaxHeuristic) option" where
  "spec_max_heuristic seeds h =
     (case spec_exploration (int (length (goal_propositions h))) (spec_seed seeds (spec_reset h)) of
        None \<Rightarrow> None
      | Some explored \<Rightarrow> Some (spec_result explored, explored))"

subsection \<open>The setup of the source and the seeds\<close>

text \<open>A seed enqueued with \<open>enqueue_if_necessary\<close>.\<close>

definition enqueue_seed :: "PropID \<times> int \<Rightarrow> HSPMaxHeuristic \<Rightarrow> HSPMaxHeuristic option" where
  "enqueue_seed seed h = enqueue_if_necessary (fst seed) (snd seed) h"

lemma for_each_append:
  "for_each body (xs @ ys) s =
     (case for_each body xs s of None \<Rightarrow> None | Some s' \<Rightarrow> for_each body ys s')"
  by (induction xs arbitrary: s) (auto split: option.splits)


lemma enqueue_if_necessary_operators:
  "enqueue_if_necessary p c (h\<lparr>unary_operators := ops\<rparr>) =
     map_option (\<lambda>h'. h'\<lparr>unary_operators := ops\<rparr>) (enqueue_if_necessary p c h)"
  by (simp add: enqueue_if_necessary_def get_proposition_def)

lemma for_each_enqueue_seed_operators:
  "for_each enqueue_seed seeds (h\<lparr>unary_operators := ops\<rparr>) =
     map_option (\<lambda>h'. h'\<lparr>unary_operators := ops\<rparr>) (for_each enqueue_seed seeds h)"
proof (induction seeds arbitrary: h)
  case Nil
  then show ?case by simp
next
  case (Cons seed seeds)
  show ?case
  proof (cases "enqueue_seed seed h")
    case None
    then show ?thesis by (simp add: enqueue_seed_def enqueue_if_necessary_operators)
  next
    case (Some h1)
    with Cons.IH [of h1] show ?thesis
      by (simp add: enqueue_seed_def enqueue_if_necessary_operators)
  qed
qed

lemma enqueue_if_necessary_keeps_operators:
  "enqueue_if_necessary p c h = Some h' \<Longrightarrow> unary_operators h' = unary_operators h"
  by (auto simp: enqueue_if_necessary_def split: option.splits if_splits)







subsection \<open>Well-formed heuristic objects and the invariant of the exploration\<close>

text \<open>
  What the constructor of \<open>RelaxationHeuristic\<close> establishes and the data model
  requires: every index stored in the object is within its array, and operator costs
  are not negative.
\<close>

definition well_formed :: "HSPMaxHeuristic \<Rightarrow> bool" where
  "well_formed h \<longleftrightarrow>
     (\<forall>op \<in> set (unary_operators h). effect op < length (propositions h) \<and> 0 \<le> base_cost op) \<and>
     (\<forall>p \<in> set (propositions h).
        precondition_of p + num_precondition_occurences p \<le> length (precondition_of_pool h)) \<and>
     (\<forall>i \<in> set (precondition_of_pool h). i < length (unary_operators h)) \<and>
     (\<forall>g \<in> set (goal_propositions h). g < length (propositions h))"

text \<open>
  During a call of \<open>compute_heuristic\<close>: costs are \<open>-1\<close> or not negative, queue
  entries name propositions at costs that are not negative, and the propositions of
  \<open>Z\<close> have cost \<open>0\<close>.
\<close>

definition exploring :: "PropID set \<Rightarrow> HSPMaxHeuristic \<Rightarrow> bool" where
  "exploring Z h \<longleftrightarrow>
     well_formed h \<and>
     (\<forall>p \<in> set (propositions h). - 1 \<le> cost p) \<and>
     (\<forall>e \<in> set (queue h). 0 \<le> fst e \<and> snd e < length (propositions h)) \<and>
     (\<forall>g \<in> Z. g < length (propositions h) \<and> cost (propositions h ! g) = 0)"

text \<open>After the setup the cost of a unary operator is not negative: it starts at the
  base cost and is only raised.\<close>

definition costs_nonneg :: "HSPMaxHeuristic \<Rightarrow> bool" where
  "costs_nonneg h \<longleftrightarrow> (\<forall>op \<in> set (unary_operators h). 0 \<le> op_cost op)"

text \<open>The parts of the object that no step of \<open>compute_heuristic\<close> changes.\<close>

definition same_task :: "HSPMaxHeuristic \<Rightarrow> HSPMaxHeuristic \<Rightarrow> bool" where
  "same_task h h' \<longleftrightarrow>
     length (propositions h') = length (propositions h) \<and>
     length (unary_operators h') = length (unary_operators h) \<and>
     precondition_of_pool h' = precondition_of_pool h \<and>
     goal_propositions h' = goal_propositions h"

lemma same_task_refl: "same_task h h"
  by (simp add: same_task_def)

lemma same_task_trans: "same_task h h1 \<Longrightarrow> same_task h1 h2 \<Longrightarrow> same_task h h2"
  by (simp add: same_task_def)

lemma all_set_update:
  assumes "\<forall>x \<in> set xs. P x" and "P y"
  shows "\<forall>x \<in> set (xs[i := y]). P x"
  using assms set_update_subset_insert [of xs i y] by auto

lemma enqueue_if_necessary_exploring:
  assumes inv: "exploring Z h" and c: "0 \<le> c" and p: "p < length (propositions h)"
  shows "\<exists>h'. enqueue_if_necessary p c h = Some h' \<and> exploring Z h' \<and> same_task h h' \<and>
              unary_operators h' = unary_operators h \<and>
              (c = 0 \<longrightarrow> cost (propositions h' ! p) = 0)"
proof (cases "cost (propositions h ! p) = - 1 \<or> cost (propositions h ! p) > c")
  case False
  from inv p have "- 1 \<le> cost (propositions h ! p)" by (simp add: exploring_def)
  with False c have "c = 0 \<longrightarrow> cost (propositions h ! p) = 0" by auto
  with False p inv show ?thesis
    by (simp add: enqueue_if_necessary_def get_proposition_def same_task_refl)
next
  case True
  define q where "q = (propositions h ! p)\<lparr>cost := c\<rparr>"
  define h' where "h' = h\<lparr>propositions := (propositions h)[p := q],
      queue := queue_push c p (queue h)\<rparr>"
  from True p have eq: "enqueue_if_necessary p c h = Some h'"
    by (simp add: enqueue_if_necessary_def get_proposition_def h'_def q_def)
  have st: "same_task h h'" by (simp add: same_task_def h'_def)
  from inv have wf: "well_formed h" by (simp add: exploring_def)
  have q_slice: "precondition_of q + num_precondition_occurences q \<le> length (precondition_of_pool h)"
    using wf p by (simp add: q_def well_formed_def)
  have wf': "well_formed h'"
    unfolding well_formed_def
  proof (intro conjI)
    show "\<forall>op \<in> set (unary_operators h'). effect op < length (propositions h') \<and> 0 \<le> base_cost op"
      using wf by (simp add: well_formed_def h'_def)
    have "\<forall>p \<in> set ((propositions h)[p := q]).
        precondition_of p + num_precondition_occurences p \<le> length (precondition_of_pool h)"
      using wf q_slice by (intro all_set_update) (simp_all add: well_formed_def)
    then show "\<forall>p \<in> set (propositions h').
        precondition_of p + num_precondition_occurences p \<le> length (precondition_of_pool h')"
      by (simp add: h'_def)
    show "\<forall>i \<in> set (precondition_of_pool h'). i < length (unary_operators h')"
      using wf by (simp add: well_formed_def h'_def)
    show "\<forall>g \<in> set (goal_propositions h'). g < length (propositions h')"
      using wf by (simp add: well_formed_def h'_def)
  qed
  have costs: "\<forall>p \<in> set (propositions h'). - 1 \<le> cost p"
  proof -
    from inv have "\<forall>p \<in> set (propositions h). - 1 \<le> cost p" by (simp add: exploring_def)
    moreover have "- 1 \<le> cost q" using c by (simp add: q_def)
    ultimately have "\<forall>p \<in> set ((propositions h)[p := q]). - 1 \<le> cost p"
      by (rule all_set_update)
    then show ?thesis by (simp add: h'_def)
  qed
  have entries: "\<forall>e \<in> set (queue h'). 0 \<le> fst e \<and> snd e < length (propositions h')"
    using inv c p by (auto simp: exploring_def h'_def queue_push_def)
  have zero: "\<forall>g \<in> Z. g < length (propositions h') \<and> cost (propositions h' ! g) = 0"
  proof
    fix g assume g: "g \<in> Z"
    with inv have g': "g < length (propositions h)" "cost (propositions h ! g) = 0"
      by (simp_all add: exploring_def)
    with True c have "g \<noteq> p" by auto
    with g' show "g < length (propositions h') \<and> cost (propositions h' ! g) = 0"
      by (simp add: h'_def)
  qed
  have "exploring Z h'"
    unfolding exploring_def using wf' costs entries zero by blast
  moreover have "unary_operators h' = unary_operators h" by (simp add: h'_def)
  moreover have "cost (propositions h' ! p) = c" using p by (simp add: h'_def q_def)
  ultimately show ?thesis using eq st by simp
qed

lemma exploring_zero:
  "exploring Z h \<Longrightarrow> g \<in> Z \<Longrightarrow> g < length (propositions h) \<and> cost (propositions h ! g) = 0"
  by (simp add: exploring_def)

lemma exploring_mono: "exploring Z h \<Longrightarrow> Y \<subseteq> Z \<Longrightarrow> exploring Y h"
  by (auto simp: exploring_def)

lemma exploring_insert:
  "exploring Z h \<Longrightarrow> p < length (propositions h) \<Longrightarrow> cost (propositions h ! p) = 0 \<Longrightarrow>
   exploring (insert p Z) h"
  by (auto simp: exploring_def)

lemma trigger_operator_exploring:
  assumes inv: "exploring Z h" and nonneg: "costs_nonneg h"
    and i: "op_id < length (unary_operators h)"
  shows "\<exists>h'. trigger_operator pc op_id h = Some h' \<and> exploring Z h' \<and> costs_nonneg h' \<and>
              same_task h h'"
proof -
  define u where "u = unary_operators h ! op_id"
  define u2 where "u2 = u\<lparr>op_cost := max (op_cost u) (int_add (base_cost u) pc),
      unsatisfied_preconditions := unsatisfied_preconditions u - 1\<rparr>"
  define h1 where "h1 = h\<lparr>unary_operators := (unary_operators h)[op_id := u2]\<rparr>"
  from i have u_in: "u \<in> set (unary_operators h)" by (simp add: u_def)
  from inv have wf: "well_formed h" by (simp add: exploring_def)
  from wf u_in have eff: "effect u2 < length (propositions h)" and base: "0 \<le> base_cost u2"
    by (simp_all add: well_formed_def u2_def)
  from nonneg u_in have "0 \<le> op_cost u" by (simp add: costs_nonneg_def)
  then have cost2: "0 \<le> op_cost u2" by (simp add: u2_def le_max_iff_disj)
  have nonneg1: "costs_nonneg h1"
  proof -
    from nonneg have "\<forall>op \<in> set (unary_operators h). 0 \<le> op_cost op"
      by (simp add: costs_nonneg_def)
    then have "\<forall>op \<in> set ((unary_operators h)[op_id := u2]). 0 \<le> op_cost op"
      using cost2 by (rule all_set_update)
    then show ?thesis by (simp add: costs_nonneg_def h1_def)
  qed
  have st1: "same_task h h1" by (simp add: same_task_def h1_def)
  have wf1: "well_formed h1"
    unfolding well_formed_def
  proof (intro conjI)
    have "\<forall>op \<in> set ((unary_operators h)[op_id := u2]).
        effect op < length (propositions h) \<and> 0 \<le> base_cost op"
      using wf eff base by (intro all_set_update) (simp_all add: well_formed_def)
    then show "\<forall>op \<in> set (unary_operators h1). effect op < length (propositions h1) \<and> 0 \<le> base_cost op"
      by (simp add: h1_def)
    show "\<forall>p \<in> set (propositions h1).
        precondition_of p + num_precondition_occurences p \<le> length (precondition_of_pool h1)"
      using wf by (simp add: well_formed_def h1_def)
    show "\<forall>i \<in> set (precondition_of_pool h1). i < length (unary_operators h1)"
      using wf by (simp add: well_formed_def h1_def)
    show "\<forall>g \<in> set (goal_propositions h1). g < length (propositions h1)"
      using wf by (simp add: well_formed_def h1_def)
  qed
  have inv1: "exploring Z h1"
    unfolding exploring_def using wf1 inv by (simp add: exploring_def h1_def)
  have step: "trigger_operator pc op_id h =
      (if unsatisfied_preconditions u2 = 0
       then enqueue_if_necessary (effect u2) (op_cost u2) h1 else Some h1)"
    using i by (simp add: trigger_operator_def get_operator_def Let_def u_def u2_def h1_def)
  show ?thesis
  proof (cases "unsatisfied_preconditions u2 = 0")
    case False
    with step inv1 nonneg1 st1 show ?thesis by simp
  next
    case True
    from eff have "effect u2 < length (propositions h1)" by (simp add: h1_def)
    from enqueue_if_necessary_exploring [OF inv1 cost2 this]
    obtain h' where h': "enqueue_if_necessary (effect u2) (op_cost u2) h1 = Some h'"
        "exploring Z h'" "same_task h1 h'" "unary_operators h' = unary_operators h1"
      by blast
    from h'(4) nonneg1 have "costs_nonneg h'" by (simp add: costs_nonneg_def)
    with True step st1 h' show ?thesis by (auto intro: same_task_trans)
  qed
qed

lemma for_each_invariant:
  assumes "P h"
    and "\<And>x s. x \<in> set xs \<Longrightarrow> P s \<Longrightarrow> same_task h s \<Longrightarrow>
           \<exists>s'. body x s = Some s' \<and> P s' \<and> same_task s s'"
  shows "\<exists>h'. for_each body xs h = Some h' \<and> P h' \<and> same_task h h'"
  using assms
proof (induction xs arbitrary: h)
  case Nil
  then show ?case by (simp add: same_task_refl)
next
  case (Cons x xs)
  from Cons.prems(2) [of x h] Cons.prems(1)
  obtain h1 where h1: "body x h = Some h1" "P h1" "same_task h h1"
    by (auto simp: same_task_refl)
  have "\<exists>h'. for_each body xs h1 = Some h' \<and> P h' \<and> same_task h1 h'"
  proof (rule Cons.IH [OF h1(2)])
    fix y s assume "y \<in> set xs" "P s" "same_task h1 s"
    with Cons.prems(2) [of y s] h1(3)
    show "\<exists>s'. body y s = Some s' \<and> P s' \<and> same_task s s'"
      by (auto intro: same_task_trans)
  qed
  with h1 show ?case by (auto intro: same_task_trans)
qed

lemma for_each_trigger_exploring:
  assumes "exploring Z h" and "costs_nonneg h"
    and "\<forall>i \<in> set ids. i < length (unary_operators h)"
  shows "\<exists>h'. for_each (trigger_operator pc) ids h = Some h' \<and>
              (exploring Z h' \<and> costs_nonneg h') \<and> same_task h h'"
proof (rule for_each_invariant [where P = "\<lambda>s. exploring Z s \<and> costs_nonneg s"])
  show "exploring Z h \<and> costs_nonneg h" using assms by simp
next
  fix i s assume "i \<in> set ids" and inv: "exploring Z s \<and> costs_nonneg s" and "same_task h s"
  with assms(3) have "i < length (unary_operators s)" by (simp add: same_task_def)
  with inv trigger_operator_exploring [of Z s i pc]
  show "\<exists>s'. trigger_operator pc i s = Some s' \<and> (exploring Z s' \<and> costs_nonneg s') \<and> same_task s s'"
    by simp
qed

lemma get_slice_subset:
  "get_slice pool index n = Some slice \<Longrightarrow> set slice \<subseteq> set pool"
  by (auto simp: get_slice_def split: if_splits dest: in_set_takeD in_set_dropD)

lemma queue_pop_exploring:
  assumes inv: "exploring Z h" and ne: "queue h \<noteq> []"
  shows "exploring Z (h\<lparr>queue := snd (queue_pop (queue h))\<rparr>)"
    and "snd (fst (queue_pop (queue h))) < length (propositions h)"
    and "0 \<le> fst (fst (queue_pop (queue h)))"
proof -
  from ne first_least_in [of "hd (queue h)" "tl (queue h)"]
  have top: "fst (queue_pop (queue h)) \<in> set (queue h)"
    by (cases "queue h") (simp_all add: queue_pop_def Let_def)
  with inv show "snd (fst (queue_pop (queue h))) < length (propositions h)"
    by (simp add: exploring_def)
  from top inv show "0 \<le> fst (fst (queue_pop (queue h)))"
    by (simp add: exploring_def)
  have "set (snd (queue_pop (queue h))) \<subseteq> set (queue h)"
    by (simp add: queue_pop_def Let_def set_remove1_subset)
  with inv show "exploring Z (h\<lparr>queue := snd (queue_pop (queue h))\<rparr>)"
    by (auto simp: exploring_def well_formed_def)
qed

lemma relaxed_exploration_loop_exploring:
  "exploring Z h \<Longrightarrow> costs_nonneg h \<Longrightarrow>
   \<exists>h'. relaxed_exploration_loop unsolved_goals h = Some h' \<and> exploring Z h' \<and> same_task h h'"
proof (induction unsolved_goals h rule: relaxed_exploration_loop.induct)
  case (1 unsolved_goals h)
  show ?case
  proof (cases "queue h = []")
    case True
    with "1.prems"(1) show ?thesis by (simp add: same_task_refl)
  next
    case False
    define top_pair where "top_pair = fst (queue_pop (queue h))"
    define h1 where "h1 = h\<lparr>queue := snd (queue_pop (queue h))\<rparr>"
    define p where "p = propositions h1 ! snd top_pair"
    from queue_pop_exploring [OF "1.prems"(1) False]
    have inv1: "exploring Z h1" and in_range: "snd top_pair < length (propositions h1)"
      and dist: "0 \<le> fst top_pair"
      by (simp_all add: h1_def top_pair_def)
    have st1: "same_task h h1" by (simp add: same_task_def h1_def)
    from "1.prems"(2) have nonneg1: "costs_nonneg h1" by (simp add: costs_nonneg_def h1_def)
    from in_range have getp: "get_proposition h1 (snd top_pair) = Some p"
      by (simp add: get_proposition_def p_def)
    from in_range have p_in: "p \<in> set (propositions h1)" by (simp add: p_def)
    show ?thesis
    proof (cases "cost p < fst top_pair")
      case True
      from "1.IH"(1) [OF False top_pair_def h1_def refl refl getp refl True inv1 nonneg1]
      obtain h' where "relaxed_exploration_loop unsolved_goals h1 = Some h'"
          "exploring Z h'" "same_task h1 h'"
        by blast
      with False True getp st1 show ?thesis
        by (subst relaxed_exploration_loop.simps)
          (auto simp: Let_def top_pair_def [symmetric] h1_def [symmetric] intro: same_task_trans)
    next
      case not_stale: False
      show ?thesis
      proof (cases "is_goal p \<and> unsolved_goals - 1 = 0")
        case True
        with False not_stale getp st1 inv1 show ?thesis
          by (subst relaxed_exploration_loop.simps)
            (auto simp: Let_def top_pair_def [symmetric] h1_def [symmetric])
      next
        case go_on: False
        from inv1 p_in
        have "precondition_of p + num_precondition_occurences p \<le> length (precondition_of_pool h1)"
          by (simp add: exploring_def well_formed_def)
        then obtain slice where slice: "get_slice (precondition_of_pool h1) (precondition_of p)
            (num_precondition_occurences p) = Some slice"
          by (simp add: get_slice_def)
        from get_slice_subset [OF slice] inv1
        have "\<forall>i \<in> set slice. i < length (unary_operators h1)"
          by (auto simp: exploring_def well_formed_def)
        from for_each_trigger_exploring [OF inv1 nonneg1 this, of "cost p"]
        obtain h2 where h2: "for_each (trigger_operator (cost p)) slice h1 = Some h2"
            "exploring Z h2" "same_task h1 h2" and nonneg2: "costs_nonneg h2"
          by blast
        from "1.IH"(2) [OF False top_pair_def h1_def refl refl getp refl not_stale go_on slice h2(1) h2(2) nonneg2]
        obtain h' where "relaxed_exploration_loop
              (if is_goal p then unsolved_goals - 1 else unsolved_goals) h2 = Some h'"
            "exploring Z h'" "same_task h2 h'"
          by blast
        with False not_stale go_on getp slice h2 st1 show ?thesis
          by (subst relaxed_exploration_loop.simps)
            (auto simp: Let_def top_pair_def [symmetric] h1_def [symmetric] intro: same_task_trans)
      qed
    qed
  qed
qed

lemma setup_operator_exploring:
  assumes inv: "exploring Z h" and i: "i < length (unary_operators h)"
  shows "\<exists>h'. setup_operator i h = Some h' \<and> exploring Z h' \<and> same_task h h' \<and>
              0 \<le> op_cost (unary_operators h' ! i) \<and>
              (\<forall>j. j \<noteq> i \<longrightarrow> unary_operators h' ! j = unary_operators h ! j)"
proof -
  define u where "u = unary_operators h ! i"
  define u1 where "u1 = u\<lparr>unsatisfied_preconditions := num_preconditions u,
      op_cost := base_cost u\<rparr>"
  define h1 where "h1 = h\<lparr>unary_operators := (unary_operators h)[i := u1]\<rparr>"
  from i have u_in: "u \<in> set (unary_operators h)" by (simp add: u_def)
  from inv have wf: "well_formed h" by (simp add: exploring_def)
  from wf u_in have eff: "effect u1 < length (propositions h)" and base: "0 \<le> base_cost u1"
    by (simp_all add: well_formed_def u1_def)
  have st1: "same_task h h1" by (simp add: same_task_def h1_def)
  have wf1: "well_formed h1"
    unfolding well_formed_def
  proof (intro conjI)
    have "\<forall>op \<in> set ((unary_operators h)[i := u1]).
        effect op < length (propositions h) \<and> 0 \<le> base_cost op"
      using wf eff base by (intro all_set_update) (simp_all add: well_formed_def)
    then show "\<forall>op \<in> set (unary_operators h1). effect op < length (propositions h1) \<and> 0 \<le> base_cost op"
      by (simp add: h1_def)
    show "\<forall>p \<in> set (propositions h1).
        precondition_of p + num_precondition_occurences p \<le> length (precondition_of_pool h1)"
      using wf by (simp add: well_formed_def h1_def)
    show "\<forall>i \<in> set (precondition_of_pool h1). i < length (unary_operators h1)"
      using wf by (simp add: well_formed_def h1_def)
    show "\<forall>g \<in> set (goal_propositions h1). g < length (propositions h1)"
      using wf by (simp add: well_formed_def h1_def)
  qed
  have inv1: "exploring Z h1"
    unfolding exploring_def using wf1 inv by (simp add: exploring_def h1_def)
  have ops1: "0 \<le> op_cost (unary_operators h1 ! i)"
      "\<forall>j. j \<noteq> i \<longrightarrow> unary_operators h1 ! j = unary_operators h ! j"
    using i base by (simp_all add: h1_def u1_def)
  have step: "setup_operator i h =
      (if unsatisfied_preconditions u1 = 0
       then enqueue_if_necessary (effect u1) (base_cost u1) h1 else Some h1)"
    using i by (simp add: setup_operator_def get_operator_def Let_def u_def u1_def h1_def)
  show ?thesis
  proof (cases "unsatisfied_preconditions u1 = 0")
    case False
    with step inv1 st1 ops1 show ?thesis by simp
  next
    case True
    from eff have "effect u1 < length (propositions h1)" by (simp add: h1_def)
    from enqueue_if_necessary_exploring [OF inv1 base this]
    obtain h' where h': "enqueue_if_necessary (effect u1) (base_cost u1) h1 = Some h'"
        "exploring Z h'" "same_task h1 h'" "unary_operators h' = unary_operators h1"
      by blast
    from h'(3) st1 have "same_task h h'" by (rule same_task_trans [rotated])
    with True step h' ops1 show ?thesis by simp
  qed
qed

lemma setup_operators_exploring:
  assumes "exploring {} h" and "k \<le> length (unary_operators h)"
  shows "\<exists>h'. for_each setup_operator [0..<k] h = Some h' \<and> exploring {} h' \<and> same_task h h' \<and>
              (\<forall>j < k. 0 \<le> op_cost (unary_operators h' ! j))"
  using assms(2)
proof (induction k)
  case 0
  with assms(1) show ?case by (simp add: same_task_refl)
next
  case (Suc k)
  then obtain h1 where h1: "for_each setup_operator [0..<k] h = Some h1" "exploring {} h1"
      "same_task h h1" "\<forall>j < k. 0 \<le> op_cost (unary_operators h1 ! j)"
    by auto
  from Suc.prems h1(3) have "k < length (unary_operators h1)" by (simp add: same_task_def)
  from setup_operator_exploring [OF h1(2) this]
  obtain h' where h': "setup_operator k h1 = Some h'" "exploring {} h'" "same_task h1 h'"
      "0 \<le> op_cost (unary_operators h' ! k)"
      "\<forall>j. j \<noteq> k \<longrightarrow> unary_operators h' ! j = unary_operators h1 ! j"
    by blast
  have "\<forall>j < Suc k. 0 \<le> op_cost (unary_operators h' ! j)"
  proof (intro allI impI)
    fix j assume "j < Suc k"
    show "0 \<le> op_cost (unary_operators h' ! j)"
    proof (cases "j = k")
      case True
      with h'(4) show ?thesis by simp
    next
      case False
      with \<open>j < Suc k\<close> have "j < k" by simp
      with h1(4) h'(5) False show ?thesis by simp
    qed
  qed
  moreover from h1(3) h'(3) have "same_task h h'" by (rule same_task_trans)
  moreover have "for_each setup_operator [0..<Suc k] h = Some h'"
    using h1(1) h'(1) by (simp add: for_each_append)
  ultimately show ?case using h'(2) by blast
qed

lemma setup_exploration_queue_exploring:
  assumes wf: "well_formed h"
  shows "\<exists>h'. setup_exploration_queue h = Some h' \<and> exploring {} h' \<and> costs_nonneg h' \<and>
              same_task h h'"
proof -
  define h2 where "h2 = h\<lparr>queue := [],
      propositions := map (\<lambda>prop. prop\<lparr>cost := - 1\<rparr>) (propositions h)\<rparr>"
  have eq: "setup_exploration_queue h = for_each setup_operator [0..<length (unary_operators h2)] h2"
    by (simp add: setup_exploration_queue_def Let_def h2_def)
  have st: "same_task h h2" by (simp add: same_task_def h2_def)
  have "well_formed h2"
    using wf by (simp add: well_formed_def h2_def)
  then have inv2: "exploring {} h2"
    by (simp add: exploring_def h2_def)
  from setup_operators_exploring [OF inv2 order_refl]
  obtain h' where h': "for_each setup_operator [0..<length (unary_operators h2)] h2 = Some h'"
      "exploring {} h'" "same_task h2 h'"
      "\<forall>j < length (unary_operators h2). 0 \<le> op_cost (unary_operators h' ! j)"
    by blast
  from h'(3,4) have "\<forall>j < length (unary_operators h'). 0 \<le> op_cost (unary_operators h' ! j)"
    by (simp add: same_task_def)
  then have "costs_nonneg h'"
    unfolding costs_nonneg_def by (metis in_set_conv_nth)
  moreover from st h'(3) have "same_task h h'" by (rule same_task_trans)
  ultimately show ?thesis using eq h'(1,2) by simp
qed

lemma setup_exploration_queue_state_exploring:
  assumes "exploring Z h" and "\<forall>fact \<in> set state. get_prop_id fact < length (propositions h)"
  shows "\<exists>h'. setup_exploration_queue_state get_prop_id state h = Some h' \<and>
              exploring (Z \<union> get_prop_id ` set state) h' \<and> same_task h h' \<and>
              unary_operators h' = unary_operators h"
  using assms
proof (induction state arbitrary: h Z)
  case Nil
  then show ?case by (simp add: setup_exploration_queue_state_def same_task_refl)
next
  case (Cons fact state)
  from Cons.prems have p: "get_prop_id fact < length (propositions h)" by simp
  from enqueue_if_necessary_exploring [OF Cons.prems(1) _ p, of 0]
  obtain h1 where h1: "enqueue_if_necessary (get_prop_id fact) 0 h = Some h1" "exploring Z h1"
      "same_task h h1" "cost (propositions h1 ! get_prop_id fact) = 0"
      and ops1: "unary_operators h1 = unary_operators h"
    by auto
  from h1(3) p have p1: "get_prop_id fact < length (propositions h1)" by (simp add: same_task_def)
  from exploring_insert [OF h1(2) p1 h1(4)]
  have inv1: "exploring (insert (get_prop_id fact) Z) h1" .
  from Cons.prems(2) h1(3) have "\<forall>fact \<in> set state. get_prop_id fact < length (propositions h1)"
    by (simp add: same_task_def)
  from Cons.IH [OF inv1 this]
  obtain h' where h': "setup_exploration_queue_state get_prop_id state h1 = Some h'"
      "exploring (insert (get_prop_id fact) Z \<union> get_prop_id ` set state) h'" "same_task h1 h'"
      and ops': "unary_operators h' = unary_operators h1"
    by blast
  from h'(2) have "exploring (Z \<union> get_prop_id ` set (fact # state)) h'" by simp
  with h1 h' ops1 ops' show ?case
    by (auto simp: setup_exploration_queue_state_def intro: same_task_trans)
qed

lemma goal_cost_loop_zero:
  assumes "\<forall>g \<in> set goals. g < length (propositions h) \<and> cost (propositions h ! g) = 0"
  shows "goal_cost_loop goals 0 h = Some (Estimate 0)"
  using assms by (induction goals) (simp_all add: get_proposition_def)

definition satisfies_goals :: "('fact \<Rightarrow> PropID) \<Rightarrow> HSPMaxHeuristic \<Rightarrow> 'fact list \<Rightarrow> bool" where
  "satisfies_goals get_prop_id h state \<longleftrightarrow>
     (\<forall>g \<in> set (goal_propositions h). g \<in> get_prop_id ` set state)"

definition state_in_range :: "('fact \<Rightarrow> PropID) \<Rightarrow> HSPMaxHeuristic \<Rightarrow> 'fact list \<Rightarrow> bool" where
  "state_in_range get_prop_id h state \<longleftrightarrow>
     (\<forall>fact \<in> set state. get_prop_id fact < length (propositions h))"

text \<open>
  Claim C7.  For a well-formed heuristic object and a state whose facts include every
  goal proposition, \<open>compute_heuristic\<close> returns the estimate \<open>0\<close>.
\<close>

theorem compute_heuristic_goal_state:
  assumes wf: "well_formed h"
    and range: "state_in_range get_prop_id h state"
    and goal: "satisfies_goals get_prop_id h state"
  shows "\<exists>h'. compute_heuristic get_prop_id h state = Some (Estimate 0, h')"
proof -
  from setup_exploration_queue_exploring [OF wf]
  obtain h1 where h1: "setup_exploration_queue h = Some h1" "exploring {} h1" "same_task h h1"
    and nonneg1: "costs_nonneg h1"
    by blast
  from range h1(3) have "\<forall>fact \<in> set state. get_prop_id fact < length (propositions h1)"
    by (simp add: state_in_range_def same_task_def)
  from setup_exploration_queue_state_exploring [OF h1(2) this]
  obtain h2 where h2: "setup_exploration_queue_state get_prop_id state h1 = Some h2"
      "exploring (get_prop_id ` set state) h2" "same_task h1 h2"
    and ops2: "unary_operators h2 = unary_operators h1"
    by auto
  from nonneg1 ops2 have nonneg2: "costs_nonneg h2" by (simp add: costs_nonneg_def)
  from relaxed_exploration_loop_exploring [OF h2(2) nonneg2]
  obtain h3 where h3: "relaxed_exploration h2 = Some h3"
      "exploring (get_prop_id ` set state) h3" "same_task h2 h3"
    unfolding relaxed_exploration_def by blast
  from h1(3) h2(3) h3(3) have "goal_propositions h3 = goal_propositions h"
    by (simp add: same_task_def)
  with goal have "\<forall>g \<in> set (goal_propositions h3). g \<in> get_prop_id ` set state"
    by (simp only: satisfies_goals_def)
  with exploring_zero [OF h3(2)]
  have "\<forall>g \<in> set (goal_propositions h3). g < length (propositions h3) \<and> cost (propositions h3 ! g) = 0"
    by blast
  then have "goal_cost_loop (goal_propositions h3) 0 h3 = Some (Estimate 0)"
    by (rule goal_cost_loop_zero)
  with h1(1) h2(1) h3(1) show ?thesis by (simp add: compute_heuristic_def)
qed

text \<open>
  A task with two binary variables \<open>A\<close> and \<open>B\<close> (propositions \<open>0, 1\<close> and
  \<open>2, 3\<close>), an operator that sets \<open>A\<close> and one that sets \<open>B\<close>, each of cost 1, and
  the goal \<open>A = 1\<close> and \<open>B = 1\<close>.  A fact is its proposition.
\<close>

definition two_switches :: HSPMaxHeuristic where
  "two_switches =
     \<lparr>propositions =
        [\<lparr>cost = 0, is_goal = False, precondition_of = 0, num_precondition_occurences = 1\<rparr>,
         \<lparr>cost = 0, is_goal = True, precondition_of = 0, num_precondition_occurences = 0\<rparr>,
         \<lparr>cost = 0, is_goal = False, precondition_of = 1, num_precondition_occurences = 1\<rparr>,
         \<lparr>cost = 0, is_goal = True, precondition_of = 0, num_precondition_occurences = 0\<rparr>],
      unary_operators =
        [\<lparr>num_preconditions = 1, effect = 1, base_cost = 1, op_cost = 0,
          unsatisfied_preconditions = 0\<rparr>,
         \<lparr>num_preconditions = 1, effect = 3, base_cost = 1, op_cost = 0,
          unsatisfied_preconditions = 0\<rparr>],
      precondition_of_pool = [0, 1],
      goal_propositions = [1, 3],
      queue = []\<rparr>"

lemma two_switches_well_formed: "well_formed two_switches"
  by (simp add: well_formed_def two_switches_def)

theorem compute_heuristic_goal_state_witness:
  "well_formed two_switches \<and>
   state_in_range id two_switches [1, 3] \<and>
   satisfies_goals id two_switches [1, 3] \<and>
   (\<exists>h'. compute_heuristic id two_switches [1, 3] = Some (Estimate 0, h'))"
proof -
  have r: "state_in_range id two_switches [1, 3]"
    by (simp add: state_in_range_def two_switches_def)
  have g: "satisfies_goals id two_switches [1, 3]"
    by (simp add: satisfies_goals_def two_switches_def)
  from compute_heuristic_goal_state [OF two_switches_well_formed r g]
    two_switches_well_formed r g
  show ?thesis by blast
qed

subsection \<open>The source computes the algorithm of the specification\<close>

text \<open>
  The number of unary operators that do not wait for a precondition any more, and a
  bound under which no sum of costs leaves the range of \<open>int\<close>: the largest base
  cost times the number of unary operators plus one is below \<open>2 ^ 31\<close>.
\<close>

definition fired :: "HSPMaxHeuristic \<Rightarrow> int" where
  "fired h = int (length (unary_operators h)) - int (sum_list (map waiting (unary_operators h)))"

definition cost_limit :: "HSPMaxHeuristic \<Rightarrow> int" where
  "cost_limit h = fold max (map base_cost (unary_operators h)) 0"

definition no_overflow :: "HSPMaxHeuristic \<Rightarrow> bool" where
  "no_overflow h \<longleftrightarrow> cost_limit h * (int (length (unary_operators h)) + 1) < 2 ^ 31"

text \<open>With \<open>C\<close> the largest base cost: the cost of a proposition is at most \<open>C\<close> for
  every operator that has fired, and the cost of an operator at most \<open>C\<close> more.\<close>

definition within :: "int \<Rightarrow> HSPMaxHeuristic \<Rightarrow> bool" where
  "within C h \<longleftrightarrow>
     0 \<le> C \<and> C * (int (length (unary_operators h)) + 1) < 2 ^ 31 \<and>
     (\<forall>op \<in> set (unary_operators h). base_cost op \<le> C \<and> op_cost op \<le> C * (fired h + 1)) \<and>
     (\<forall>p \<in> set (propositions h). cost p \<le> C * fired h)"















subsection \<open>The seeds\<close>







subsection \<open>The result\<close>


subsection \<open>Claim C1\<close>






text \<open>
  The task \<open>free_chain\<close> with the costs 3 and 4 replaced by \<open>2 ^ 30\<close>.
\<close>

definition costly_chain :: HSPMaxHeuristic where
  "costly_chain =
     \<lparr>propositions =
        [\<lparr>cost = 0, is_goal = False, precondition_of = 0, num_precondition_occurences = 0\<rparr>,
         \<lparr>cost = 0, is_goal = False, precondition_of = 0, num_precondition_occurences = 1\<rparr>,
         \<lparr>cost = 0, is_goal = True, precondition_of = 0, num_precondition_occurences = 0\<rparr>],
      unary_operators =
        [\<lparr>num_preconditions = 0, effect = 1, base_cost = 1073741824, op_cost = 0,
          unsatisfied_preconditions = 0\<rparr>,
         \<lparr>num_preconditions = 1, effect = 2, base_cost = 1073741824, op_cost = 0,
          unsatisfied_preconditions = 0\<rparr>],
      precondition_of_pool = [1],
      goal_propositions = [2],
      queue = []\<rparr>"

text \<open>
  When the sum \<open>base_cost + prop_cost\<close> leaves the range of \<open>int\<close>, the source and the
  algorithm of the specification differ: on \<open>costly_chain\<close> the sum \<open>2 ^ 30 + 2 ^ 30\<close>
  wraps to \<open>- 2 ^ 31\<close>, the maximum keeps \<open>2 ^ 30\<close>, and \<open>compute_heuristic\<close> returns
  \<open>2 ^ 30\<close> where the specification has \<open>2 ^ 31\<close>.
\<close>

lemma compute_heuristic_wraps:
  "map_option fst (compute_heuristic id costly_chain [0 :: nat]) = Some (Estimate 1073741824)"
  "map_option fst (spec_max_heuristic
      (operator_seeds (unary_operators costly_chain) @ state_seeds id [0 :: nat]) costly_chain)
     = Some (Estimate 2147483648)"
  "\<not> no_overflow costly_chain"
    apply code_simp
   apply code_simp
  apply (simp add: no_overflow_def cost_limit_def costly_chain_def)
  done




section \<open>Eager best-first search (\<open>search_algorithms/eager_search.cc\<close>)\<close>

subsection \<open>Search nodes, statistics and evaluation contexts\<close>

type_synonym StateID = nat
type_synonym OperatorID = nat

text \<open>
  Modelled from the spec: the search node of \<open>search_space.h\<close>, which is not among the
  sources.  A node records its status, its g-value (by adjusted cost), its real g-value
  (by true cost), and the parent state and generating operator, if any (sections 3,
  4.2 and 9 of the specification).
\<close>

datatype NodeStatus = New | Open | Closed | DeadEnd

record SearchNodeInfo =
  status :: NodeStatus
  g_value :: int
  real_g :: int
  parent_state_id :: "StateID option"
  creating_operator :: "OperatorID option"

definition new_node :: SearchNodeInfo where
  "new_node = \<lparr>status = New, g_value = - 1, real_g = - 1, parent_state_id = None,
                creating_operator = None\<rparr>"

text \<open>
  Modelled from the spec: the operations on a search node (section 4.2).
  \<open>open_initial\<close> opens the node with g-value 0 and no parent; \<open>open_new_node\<close>
  opens it below a parent with the parent's g-value plus the adjusted cost;
  \<open>update_open_node_parent\<close> and \<open>reopen_closed_node\<close> rewire the node to a cheaper
  parent, the latter turning it from closed to open; \<open>update_closed_node_parent\<close>
  keeps the g-values of the closed node and accepts the new parent.  The arguments of
  the rewiring operations are the parent's node, the parent's state, the operator,
  its true cost and its adjusted cost.  The g-values are of the source's type \<open>int\<close>,
  and their sums are \<open>int_add\<close>.
\<close>

definition open_initial :: "SearchNodeInfo \<Rightarrow> SearchNodeInfo" where
  "open_initial info =
     info\<lparr>status := Open, g_value := 0, real_g := 0, parent_state_id := None,
          creating_operator := None\<rparr>"

definition update_parent ::
  "SearchNodeInfo \<Rightarrow> StateID \<Rightarrow> OperatorID \<Rightarrow> int \<Rightarrow> int \<Rightarrow> SearchNodeInfo \<Rightarrow> SearchNodeInfo" where
  "update_parent parent_node parent_id op true_cost adjusted_cost info =
     info\<lparr>g_value := int_add (g_value parent_node) adjusted_cost,
          real_g := int_add (real_g parent_node) true_cost,
          parent_state_id := Some parent_id,
          creating_operator := Some op\<rparr>"

definition open_new_node ::
  "SearchNodeInfo \<Rightarrow> StateID \<Rightarrow> OperatorID \<Rightarrow> int \<Rightarrow> int \<Rightarrow> SearchNodeInfo \<Rightarrow> SearchNodeInfo" where
  "open_new_node parent_node parent_id op true_cost adjusted_cost info =
     (update_parent parent_node parent_id op true_cost adjusted_cost info)\<lparr>status := Open\<rparr>"

definition update_open_node_parent ::
  "SearchNodeInfo \<Rightarrow> StateID \<Rightarrow> OperatorID \<Rightarrow> int \<Rightarrow> int \<Rightarrow> SearchNodeInfo \<Rightarrow> SearchNodeInfo" where
  "update_open_node_parent parent_node parent_id op true_cost adjusted_cost info =
     update_parent parent_node parent_id op true_cost adjusted_cost info"

definition reopen_closed_node ::
  "SearchNodeInfo \<Rightarrow> StateID \<Rightarrow> OperatorID \<Rightarrow> int \<Rightarrow> int \<Rightarrow> SearchNodeInfo \<Rightarrow> SearchNodeInfo" where
  "reopen_closed_node parent_node parent_id op true_cost adjusted_cost info =
     (update_parent parent_node parent_id op true_cost adjusted_cost info)\<lparr>status := Open\<rparr>"

definition update_closed_node_parent ::
  "SearchNodeInfo \<Rightarrow> StateID \<Rightarrow> OperatorID \<Rightarrow> int \<Rightarrow> int \<Rightarrow> SearchNodeInfo \<Rightarrow> SearchNodeInfo" where
  "update_closed_node_parent parent_node parent_id op true_cost adjusted_cost info =
     info\<lparr>parent_state_id := Some parent_id, creating_operator := Some op\<rparr>"

definition close :: "SearchNodeInfo \<Rightarrow> SearchNodeInfo" where
  "close info = info\<lparr>status := Closed\<rparr>"

definition mark_as_dead_end :: "SearchNodeInfo \<Rightarrow> SearchNodeInfo" where
  "mark_as_dead_end info = info\<lparr>status := DeadEnd\<rparr>"

text \<open>The counters of \<open>SearchStatistics\<close> that the search increments, and the f-values
  reported to it.\<close>

record SearchStatistics =
  expanded_states :: nat
  evaluated_states :: nat
  generated_states :: nat
  reopened_states :: nat
  dead_end_states :: nat
  f_value_reports :: "int list"

definition no_statistics :: SearchStatistics where
  "no_statistics = \<lparr>expanded_states = 0, evaluated_states = 0, generated_states = 0,
     reopened_states = 0, dead_end_states = 0, f_value_reports = []\<rparr>"

definition inc_expanded :: "SearchStatistics \<Rightarrow> SearchStatistics" where
  "inc_expanded st = st\<lparr>expanded_states := expanded_states st + 1\<rparr>"

definition inc_evaluated_states :: "SearchStatistics \<Rightarrow> SearchStatistics" where
  "inc_evaluated_states st = st\<lparr>evaluated_states := evaluated_states st + 1\<rparr>"

definition inc_generated :: "SearchStatistics \<Rightarrow> SearchStatistics" where
  "inc_generated st = st\<lparr>generated_states := generated_states st + 1\<rparr>"

definition inc_reopened :: "SearchStatistics \<Rightarrow> SearchStatistics" where
  "inc_reopened st = st\<lparr>reopened_states := reopened_states st + 1\<rparr>"

definition inc_dead_ends :: "SearchStatistics \<Rightarrow> SearchStatistics" where
  "inc_dead_ends st = st\<lparr>dead_end_states := dead_end_states st + 1\<rparr>"

definition report_f_value_progress :: "int \<Rightarrow> SearchStatistics \<Rightarrow> SearchStatistics" where
  "report_f_value_progress f st = st\<lparr>f_value_reports := f_value_reports st @ [f]\<rparr>"

text \<open>An evaluation context: the state, its g-value and whether it was reached by a
  preferred operator.\<close>

record EvaluationContext =
  ec_state :: StateID
  ec_g_value :: int
  ec_is_preferred :: bool

subsection \<open>Collaborators\<close>

text \<open>
  The components outside \<open>eager_search.cc\<close> that the search calls are parameters.  All
  evaluators (those of the open list, the preferred-operator evaluators, the
  f-evaluator, the lazy evaluator, and the search progress) share one mutable state of
  type \<open>'e\<close>, which holds their caches, the cache of the evaluation context and the
  path-dependent data; an evaluation returns its result and the new state.  The state
  registry has type \<open>'r\<close>.  An evaluator value of \<open>None\<close> is an infinite estimate.
  \<open>applicable_operators\<close> stands for the successor generator followed by the pruning
  method: the operators that the loop of \<open>generate_successors\<close> runs over, in its
  order.
\<close>

record 'e LazyEvaluator =
  does_cache_estimates :: bool
  is_estimate_cached :: "'e \<Rightarrow> StateID \<Rightarrow> bool"
  get_cached_estimate :: "'e \<Rightarrow> StateID \<Rightarrow> int"
  get_evaluator_value_or_infinity :: "'e \<Rightarrow> EvaluationContext \<Rightarrow> int \<times> 'e"

record ('e, 'r) Collaborators =
  get_initial_state :: "'r \<Rightarrow> StateID \<times> 'r"
  get_successor_state :: "'r \<Rightarrow> StateID \<Rightarrow> OperatorID \<Rightarrow> StateID \<times> 'r"
  applicable_operators :: "'r \<Rightarrow> StateID \<Rightarrow> OperatorID list"
  get_cost :: "OperatorID \<Rightarrow> int"
  get_adjusted_cost :: "OperatorID \<Rightarrow> int"
  check_goal :: "'r \<Rightarrow> StateID \<Rightarrow> bool"
  open_list_values :: "'e \<Rightarrow> EvaluationContext \<Rightarrow> int option list \<times> 'e"
  preferred_operators_of :: "'e \<Rightarrow> EvaluationContext \<Rightarrow> OperatorID list \<times> 'e"
  notify_initial_state :: "'e \<Rightarrow> StateID \<Rightarrow> 'e"
  notify_state_transition :: "'e \<Rightarrow> StateID \<Rightarrow> OperatorID \<Rightarrow> StateID \<Rightarrow> 'e"
  check_progress :: "'e \<Rightarrow> EvaluationContext \<Rightarrow> bool \<times> 'e"
  f_evaluator :: "('e \<Rightarrow> EvaluationContext \<Rightarrow> int \<times> 'e) option"
  lazy_evaluator :: "'e LazyEvaluator option"

subsection \<open>The search object and its open list\<close>

type_synonym OpenListEntry = "int list \<times> StateID"

record ('e, 'r) EagerSearch =
  reopen_closed_nodes :: bool
  bound :: int
  open_list :: "OpenListEntry list"
  search_space :: "StateID \<Rightarrow> SearchNodeInfo"
  statistics :: SearchStatistics
  evaluators :: 'e
  state_registry :: 'r

text \<open>
  Modelled from the spec: the open list (section 4.5), whose classes are not among the
  sources.  An entry is a sort key, the tuple of the values of the list's evaluators,
  and a state.  \<open>is_dead_end\<close> holds when an evaluator returns an infinite value;
  \<open>insert\<close> adds no entry then; \<open>remove_min\<close> removes the entry with the
  lexicographically least key, the oldest one among equal keys; \<open>boost_preferred\<close>
  has no effect on a list without preferred sub-lists.
\<close>

fun key_less :: "int list \<Rightarrow> int list \<Rightarrow> bool" where
  "key_less [] [] = False"
| "key_less [] (y # ys) = True"
| "key_less (x # xs) [] = False"
| "key_less (x # xs) (y # ys) = (x < y \<or> (x = y \<and> key_less xs ys))"

fun least_entry :: "OpenListEntry \<Rightarrow> OpenListEntry list \<Rightarrow> OpenListEntry" where
  "least_entry best [] = best"
| "least_entry best (entry # entries) =
     (if key_less (fst entry) (fst best) then least_entry entry entries
      else least_entry best entries)"

definition remove_min :: "OpenListEntry list \<Rightarrow> StateID \<times> OpenListEntry list" where
  "remove_min entries =
     (let entry = least_entry (hd entries) (tl entries) in (snd entry, remove1 entry entries))"

definition is_dead_end ::
  "('e, 'r) Collaborators \<Rightarrow> 'e \<Rightarrow> EvaluationContext \<Rightarrow> bool \<times> 'e" where
  "is_dead_end env e eval_context =
     (let (vals, e1) = open_list_values env e eval_context in (None \<in> set vals, e1))"

definition insert_entry ::
  "('e, 'r) Collaborators \<Rightarrow> EvaluationContext \<Rightarrow> StateID \<Rightarrow> ('e, 'r) EagerSearch \<Rightarrow>
   ('e, 'r) EagerSearch" where
  "insert_entry env eval_context state_id s =
     (let (vals, e1) = open_list_values env (evaluators s) eval_context;
          s1 = s\<lparr>evaluators := e1\<rparr>
      in if None \<in> set vals then s1
         else s1\<lparr>open_list := open_list s1 @ [(map the vals, state_id)]\<rparr>)"

definition boost_preferred :: "('e, 'r) EagerSearch \<Rightarrow> ('e, 'r) EagerSearch" where
  "boost_preferred s = s"

subsection \<open>The constructor\<close>

text \<open>
  \<open>base\<close> is the outcome of the base-class constructor \<open>SearchAlgorithm\<close>, which
  runs first and is not among the sources: \<open>Some code\<close> when it ends the process,
  \<open>None\<close> when it returns.  The object is returned with an empty open list, a search
  space of new nodes and no statistics.
\<close>

definition EagerSearch_new ::
  "ExitCode option \<Rightarrow> ('e, 'r) Collaborators \<Rightarrow> bool \<Rightarrow> int \<Rightarrow> 'e \<Rightarrow> 'r \<Rightarrow>
   ExitCode + ('e, 'r) EagerSearch" where
  "EagerSearch_new base env reopen_closed cost_bound e r =
     (case base of
        Some code \<Rightarrow> Inl code
      | None \<Rightarrow>
         (let search = \<lparr>reopen_closed_nodes = reopen_closed, bound = cost_bound, open_list = [],
                      search_space = (\<lambda>state_id. new_node), statistics = no_statistics,
                      evaluators = e, state_registry = r\<rparr>
          in case lazy_evaluator env of
               None \<Rightarrow> Inr search
             | Some lazy \<Rightarrow>
                 if \<not> does_cache_estimates lazy then Inl SEARCH_INPUT_ERROR else Inr search))"

subsection \<open>\<open>initialize\<close>\<close>

definition start_f_value_statistics ::
  "('e, 'r) Collaborators \<Rightarrow> EvaluationContext \<Rightarrow> ('e, 'r) EagerSearch \<Rightarrow> ('e, 'r) EagerSearch" where
  "start_f_value_statistics env eval_context s =
     (case f_evaluator env of
        None \<Rightarrow> s
      | Some f \<Rightarrow>
          (let (f_value, e1) = f (evaluators s) eval_context
           in s\<lparr>evaluators := e1,
                statistics := report_f_value_progress f_value (statistics s)\<rparr>))"

definition update_f_value_statistics ::
  "('e, 'r) Collaborators \<Rightarrow> EvaluationContext \<Rightarrow> ('e, 'r) EagerSearch \<Rightarrow> ('e, 'r) EagerSearch" where
  "update_f_value_statistics env eval_context s =
     (case f_evaluator env of
        None \<Rightarrow> s
      | Some f \<Rightarrow>
          (let (f_value, e1) = f (evaluators s) eval_context
           in s\<lparr>evaluators := e1,
                statistics := report_f_value_progress f_value (statistics s)\<rparr>))"

text \<open>Log output and the initialisation of the pruning method are left out.\<close>

definition initialize :: "('e, 'r) Collaborators \<Rightarrow> ('e, 'r) EagerSearch \<Rightarrow> ('e, 'r) EagerSearch" where
  "initialize env s =
     (let (initial_state, r1) = get_initial_state env (state_registry s);
          e1 = notify_initial_state env (evaluators s) initial_state;
          eval_context = \<lparr>ec_state = initial_state, ec_g_value = 0, ec_is_preferred = True\<rparr>;
          (dead, e2) = is_dead_end env e1 eval_context;
          s1 = s\<lparr>state_registry := r1, evaluators := e2,
                 statistics := inc_evaluated_states (statistics s)\<rparr>
      in if dead then s1
         else
           (let (progress, e3) = check_progress env (evaluators s1) eval_context;
                s2 = start_f_value_statistics env eval_context (s1\<lparr>evaluators := e3\<rparr>);
                s3 = s2\<lparr>search_space :=
                        (search_space s2)(initial_state := open_initial (search_space s2 initial_state))\<rparr>
            in insert_entry env eval_context initial_state s3))"

subsection \<open>\<open>get_next_node_to_expand\<close>\<close>

text \<open>One iteration of the loop either continues with the next iteration or returns
  the node of a state; \<open>search_after\<close> is the search object it leaves.\<close>

datatype ('e, 'r) iteration =
    Continue (search_after: "('e, 'r) EagerSearch")
  | Return StateID (search_after: "('e, 'r) EagerSearch")

fun returned :: "('e, 'r) iteration \<Rightarrow> StateID option" where
  "returned (Continue s) = None"
| "returned (Return state_id s) = Some state_id"

definition close_node ::
  "('e, 'r) Collaborators \<Rightarrow> StateID \<Rightarrow> EvaluationContext \<Rightarrow> ('e, 'r) EagerSearch \<Rightarrow>
   ('e, 'r) iteration" where
  "close_node env state_id eval_context s =
     Return state_id (update_f_value_statistics env eval_context
       (s\<lparr>search_space := (search_space s)(state_id := close (search_space s state_id))\<rparr>))"

definition pop_iteration :: "('e, 'r) Collaborators \<Rightarrow> ('e, 'r) EagerSearch \<Rightarrow> ('e, 'r) iteration" where
  "pop_iteration env s =
     (let state_id = fst (remove_min (open_list s));
          s1 = s\<lparr>open_list := snd (remove_min (open_list s))\<rparr>;
          node = search_space s1 state_id
      in if status node = Closed then Continue s1
         else
           (let eval_context = \<lparr>ec_state = state_id, ec_g_value = g_value node, ec_is_preferred = False\<rparr>
            in case lazy_evaluator env of
                 None \<Rightarrow> close_node env state_id eval_context s1
               | Some lazy \<Rightarrow>
                   if status node = DeadEnd then Continue s1
                   else if is_estimate_cached lazy (evaluators s1) state_id then
                     (let old_h = get_cached_estimate lazy (evaluators s1) state_id;
                          (new_h, e1) = get_evaluator_value_or_infinity lazy (evaluators s1) eval_context;
                          (dead, e2) = is_dead_end env e1 eval_context;
                          s2 = s1\<lparr>evaluators := e2\<rparr>
                      in if dead
                         then Continue (s2\<lparr>search_space := (search_space s2)(state_id := mark_as_dead_end node),
                                           statistics := inc_dead_ends (statistics s2)\<rparr>)
                         else if new_h \<noteq> old_h then Continue (insert_entry env eval_context state_id s2)
                         else close_node env state_id eval_context s2)
                   else close_node env state_id eval_context s1))"

text \<open>The loop may run forever when a lazy evaluator keeps changing its value; the
  result \<open>None\<close> stands for that.  It returns the node to expand, if any.  The
  \<open>assert\<close> statements of \<open>eager_search.cc\<close>, which a release build compiles out, are
  not branches of the model; that the one after \<open>node.close()\<close> holds is proved
  below.\<close>

partial_function (option) get_next_node_to_expand ::
  "('e, 'r) Collaborators \<Rightarrow> ('e, 'r) EagerSearch \<Rightarrow> (StateID option \<times> ('e, 'r) EagerSearch) option" where
  "get_next_node_to_expand env s =
     (if open_list s = [] then Some (None, s)
      else case pop_iteration env s of
             Continue s1 \<Rightarrow> get_next_node_to_expand env s1
           | Return state_id s1 \<Rightarrow> Some (Some state_id, s1))"

declare get_next_node_to_expand.simps [code]

subsection \<open>\<open>generate_successors\<close>, \<open>expand\<close> and \<open>step\<close>\<close>

text \<open>The body of the loop over the applicable operators, for the operator \<open>op_id\<close>
  of the expanded node \<open>state_id\<close>.\<close>

definition generate_successor ::
  "('e, 'r) Collaborators \<Rightarrow> StateID \<Rightarrow> OperatorID list \<Rightarrow> OperatorID \<Rightarrow>
   ('e, 'r) EagerSearch \<Rightarrow> ('e, 'r) EagerSearch" where
  "generate_successor env state_id preferred_operators op_id s =
     (let node = search_space s state_id
      in if int_add (real_g node) (get_cost env op_id) \<ge> bound s then s
         else
           (let succ_state = fst (get_successor_state env (state_registry s) state_id op_id);
                s1 = s\<lparr>state_registry := snd (get_successor_state env (state_registry s) state_id op_id),
                       statistics := inc_generated (statistics s)\<rparr>;
                succ_node = search_space s1 succ_state;
                s2 = s1\<lparr>evaluators := notify_state_transition env (evaluators s1) state_id op_id succ_state\<rparr>
            in if status succ_node = DeadEnd then s2
               else
                 (let is_preferred = (op_id \<in> set preferred_operators)
                  in if status succ_node = New then
                       (let succ_g = int_add (g_value node) (get_adjusted_cost env op_id);
                            succ_eval_context = \<lparr>ec_state = succ_state, ec_g_value = succ_g,
                                                  ec_is_preferred = is_preferred\<rparr>;
                            s3 = s2\<lparr>statistics := inc_evaluated_states (statistics s2)\<rparr>;
                            s4 = s3\<lparr>evaluators := snd (is_dead_end env (evaluators s3) succ_eval_context)\<rparr>
                        in if fst (is_dead_end env (evaluators s3) succ_eval_context)
                           then s4\<lparr>search_space := (search_space s4)(succ_state := mark_as_dead_end succ_node),
                                   statistics := inc_dead_ends (statistics s4)\<rparr>
                           else
                             (let s5 = s4\<lparr>search_space := (search_space s4)(succ_state :=
                                          open_new_node node state_id op_id (get_cost env op_id)
                                            (get_adjusted_cost env op_id) succ_node)\<rparr>;
                                  s6 = insert_entry env succ_eval_context succ_state s5;
                                  s7 = s6\<lparr>evaluators := snd (check_progress env (evaluators s6) succ_eval_context)\<rparr>
                              in if fst (check_progress env (evaluators s6) succ_eval_context)
                                 then boost_preferred s7 else s7))
                     else if g_value succ_node > int_add (g_value node) (get_adjusted_cost env op_id) then
                       (if status succ_node = Open then
                          (let s3 = s2\<lparr>search_space := (search_space s2)(succ_state :=
                                       update_open_node_parent node state_id op_id (get_cost env op_id)
                                         (get_adjusted_cost env op_id) succ_node)\<rparr>;
                               succ_eval_context = \<lparr>ec_state = succ_state,
                                   ec_g_value = g_value (search_space s3 succ_state),
                                   ec_is_preferred = is_preferred\<rparr>
                           in insert_entry env succ_eval_context succ_state s3)
                        else if status succ_node = Closed \<and> reopen_closed_nodes s2 then
                          (let s3 = s2\<lparr>statistics := inc_reopened (statistics s2)\<rparr>;
                               s4 = s3\<lparr>search_space := (search_space s3)(succ_state :=
                                       reopen_closed_node node state_id op_id (get_cost env op_id)
                                         (get_adjusted_cost env op_id) succ_node)\<rparr>;
                               succ_eval_context = \<lparr>ec_state = succ_state,
                                   ec_g_value = g_value (search_space s4 succ_state),
                                   ec_is_preferred = is_preferred\<rparr>
                           in insert_entry env succ_eval_context succ_state s4)
                        else
                          s2\<lparr>search_space := (search_space s2)(succ_state :=
                               update_closed_node_parent node state_id op_id (get_cost env op_id)
                                 (get_adjusted_cost env op_id) succ_node)\<rparr>)
                     else s2)))"

definition generate_successors ::
  "('e, 'r) Collaborators \<Rightarrow> StateID \<Rightarrow> ('e, 'r) EagerSearch \<Rightarrow> ('e, 'r) EagerSearch" where
  "generate_successors env state_id s =
     (let applicable = applicable_operators env (state_registry s) state_id;
          eval_context = \<lparr>ec_state = state_id, ec_g_value = g_value (search_space s state_id),
                          ec_is_preferred = False\<rparr>;
          preferred_operators = fst (preferred_operators_of env (evaluators s) eval_context);
          s1 = s\<lparr>evaluators := snd (preferred_operators_of env (evaluators s) eval_context)\<rparr>
      in fold (generate_successor env state_id preferred_operators) applicable s1)"

datatype SearchStatus = IN_PROGRESS | TIMEOUT | FAILED | SOLVED

text \<open>\<open>check_goal_and_set_plan\<close> is the goal test here; the plan it stores is not
  modelled.\<close>

definition expand ::
  "('e, 'r) Collaborators \<Rightarrow> StateID \<Rightarrow> ('e, 'r) EagerSearch \<Rightarrow> SearchStatus \<times> ('e, 'r) EagerSearch" where
  "expand env state_id s =
     (let s1 = s\<lparr>statistics := inc_expanded (statistics s)\<rparr>
      in if check_goal env (state_registry s1) state_id then (SOLVED, s1)
         else (IN_PROGRESS, generate_successors env state_id s1))"

definition step ::
  "('e, 'r) Collaborators \<Rightarrow> ('e, 'r) EagerSearch \<Rightarrow> (SearchStatus \<times> ('e, 'r) EagerSearch) option" where
  "step env s =
     (case get_next_node_to_expand env s of
        None \<Rightarrow> None
      | Some (None, s1) \<Rightarrow> Some (FAILED, s1)
      | Some (Some state_id, s1) \<Rightarrow> Some (expand env state_id s1))"

subsection \<open>An example task\<close>

text \<open>
  One variable with the values 0 to 4; a state is identified by its value.  The
  operators are 0 (from 0 to 1, cost 1), 1 (from 1 to 2, cost 1), 2 (from 0 to 2,
  cost 5), 3 (from 1 to 3, cost 1) and 4 (from 1 to 4, cost 1); \<open>first_ops\<close> is
  the order in which the successor generator lists the operators 0 and 2 in state 0.
  No state is a goal.  The open list has one evaluator, which is infinite on state 4
  and 0 elsewhere, so that entries leave the list in the order they entered; there
  is no lazy evaluator.  The registry is the list of the registered states.
\<close>

definition register_state :: "StateID \<Rightarrow> StateID list \<Rightarrow> StateID \<times> StateID list" where
  "register_state state_id r = (state_id, if state_id \<in> set r then r else r @ [state_id])"

definition chain_task :: "OperatorID list \<Rightarrow> (unit, StateID list) Collaborators" where
  "chain_task first_ops =
     \<lparr>get_initial_state = register_state 0,
      get_successor_state =
        (\<lambda>r state_id op_id. register_state
           (if op_id = 0 then 1 else if op_id = 3 then 3 else if op_id = 4 then 4 else 2) r),
      applicable_operators =
        (\<lambda>r state_id. if state_id = 0 then first_ops else if state_id = 1 then [1, 3, 4] else []),
      get_cost = (\<lambda>op_id. if op_id = 2 then 5 else 1),
      get_adjusted_cost = (\<lambda>op_id. if op_id = 2 then 5 else 1),
      check_goal = (\<lambda>r state_id. False),
      open_list_values =
        (\<lambda>e eval_context. ([if ec_state eval_context = 4 then None else Some 0], e)),
      preferred_operators_of = (\<lambda>e eval_context. ([], e)),
      notify_initial_state = (\<lambda>e state_id. e),
      notify_state_transition = (\<lambda>e state_id op_id succ_state. e),
      check_progress = (\<lambda>e eval_context. (False, e)),
      f_evaluator = None,
      lazy_evaluator = None\<rparr>"

text \<open>The search without reopening and with bound \<open>b\<close>: after construction and
  \<open>initialize\<close>, and after \<open>n\<close> further calls of \<open>step\<close>.\<close>

definition chain_search0 :: "OperatorID list \<Rightarrow> int \<Rightarrow> (unit, StateID list) EagerSearch" where
  "chain_search0 first_ops b =
     initialize (chain_task first_ops)
       (projr (EagerSearch_new None (chain_task first_ops) False b () []))"

fun chain_search :: "nat \<Rightarrow> OperatorID list \<Rightarrow> int \<Rightarrow> (unit, StateID list) EagerSearch" where
  "chain_search 0 first_ops b = chain_search0 first_ops b"
| "chain_search (Suc n) first_ops b =
     snd (the (step (chain_task first_ops) (chain_search n first_ops b)))"

subsection \<open>The constructor\<close>

text \<open>
  Claim C5.  When the base-class constructor returns, constructing the search with a
  lazy evaluator that does not cache its estimates ends the process with the input
  error and yields no search object, so that no search step can run; without a lazy
  evaluator, or with a caching one, the constructor returns the object, with an empty
  open list, no statistics and every node new.
\<close>

theorem EagerSearch_new_lazy_evaluator:
  "EagerSearch_new None env reopen_closed cost_bound e r =
     (if \<exists>lazy. lazy_evaluator env = Some lazy \<and> \<not> does_cache_estimates lazy
      then Inl SEARCH_INPUT_ERROR
      else Inr \<lparr>reopen_closed_nodes = reopen_closed, bound = cost_bound, open_list = [],
                 search_space = (\<lambda>state_id. new_node), statistics = no_statistics,
                 evaluators = e, state_registry = r\<rparr>)"
  by (simp add: EagerSearch_new_def Let_def split: option.splits)

text \<open>A lazy evaluator that caches nothing, constantly 0.\<close>

definition uncached_evaluator :: "unit LazyEvaluator" where
  "uncached_evaluator =
     \<lparr>does_cache_estimates = False,
      is_estimate_cached = (\<lambda>e state_id. False),
      get_cached_estimate = (\<lambda>e state_id. 0),
      get_evaluator_value_or_infinity = (\<lambda>e eval_context. (0, e))\<rparr>"

theorem EagerSearch_new_lazy_evaluator_witness:
  "EagerSearch_new None (chain_task [0, 2]\<lparr>lazy_evaluator := Some uncached_evaluator\<rparr>)
     False 100 () [] = Inl SEARCH_INPUT_ERROR \<and>
   \<not> isl (EagerSearch_new None (chain_task [0, 2]) False 100 () []) \<and>
   \<not> isl (EagerSearch_new None
     (chain_task [0, 2]\<lparr>lazy_evaluator := Some (uncached_evaluator\<lparr>does_cache_estimates := True\<rparr>)\<rparr>)
     False 100 () [])"
  using EagerSearch_new_lazy_evaluator
      [of "chain_task [0, 2]\<lparr>lazy_evaluator := Some uncached_evaluator\<rparr>" False 100 "()" "[]"]
    EagerSearch_new_lazy_evaluator [of "chain_task [0, 2]" False 100 "()" "[]"]
    EagerSearch_new_lazy_evaluator
      [of "chain_task [0, 2]\<lparr>lazy_evaluator := Some (uncached_evaluator\<lparr>does_cache_estimates := True\<rparr>)\<rparr>"
        False 100 "()" "[]"]
  by (simp add: chain_task_def uncached_evaluator_def)

subsection \<open>The bound\<close>

lemma generate_successor_pruned:
  assumes "bound s \<le> int_add (real_g (search_space s state_id)) (get_cost env op_id)"
  shows "generate_successor env state_id preferred_operators op_id s = s"
  using assms by (simp add: generate_successor_def Let_def)

text \<open>
  Claim C4.  If the real g-value of the expanded node plus the cost of an applicable
  operator reaches the bound, the loop body for that operator leaves the search
  object as it is: the state registry (no successor is registered), the statistics,
  the evaluators (no transition is notified) and the open list are unchanged.  The
  sum is the one the source computes on \<open>int\<close>; it is the sum of the integers when
  that is in the range of \<open>int\<close>.
\<close>

theorem generate_successor_bound:
  "(bound s \<le> int_add (real_g (search_space s state_id)) (get_cost env op_id) \<longrightarrow>
      generate_successor env state_id preferred_operators op_id s = s) \<and>
   (bound s \<le> real_g (search_space s state_id) + get_cost env op_id \<and>
    - (2 ^ 31) \<le> real_g (search_space s state_id) + get_cost env op_id \<and>
    real_g (search_space s state_id) + get_cost env op_id < 2 ^ 31 \<longrightarrow>
      generate_successor env state_id preferred_operators op_id s = s)"
proof (intro conjI impI)
  assume "bound s \<le> int_add (real_g (search_space s state_id)) (get_cost env op_id)"
  then show "generate_successor env state_id preferred_operators op_id s = s"
    by (rule generate_successor_pruned)
next
  assume a: "bound s \<le> real_g (search_space s state_id) + get_cost env op_id \<and>
    - (2 ^ 31) \<le> real_g (search_space s state_id) + get_cost env op_id \<and>
    real_g (search_space s state_id) + get_cost env op_id < 2 ^ 31"
  then have "int_add (real_g (search_space s state_id)) (get_cost env op_id) =
      real_g (search_space s state_id) + get_cost env op_id"
    by (intro int_add_exact) simp_all
  with a have "bound s \<le> int_add (real_g (search_space s state_id)) (get_cost env op_id)"
    by simp
  then show "generate_successor env state_id preferred_operators op_id s = s"
    by (rule generate_successor_pruned)
qed

text \<open>With the bound 5, the operator of cost 5 is skipped in the initial state, and
  the first step inserts state 1 only.\<close>

theorem generate_successor_bound_witness:
  "bound (chain_search 0 [2, 0] 5) \<le>
     int_add (real_g (search_space (chain_search 0 [2, 0] 5) 0)) (get_cost (chain_task [2, 0]) 2) \<and>
   bound (chain_search 0 [2, 0] 5) \<le>
     real_g (search_space (chain_search 0 [2, 0] 5) 0) + get_cost (chain_task [2, 0]) 2 \<and>
   - (2 ^ 31) \<le> real_g (search_space (chain_search 0 [2, 0] 5) 0) + get_cost (chain_task [2, 0]) 2 \<and>
   real_g (search_space (chain_search 0 [2, 0] 5) 0) + get_cost (chain_task [2, 0]) 2 < 2 ^ 31 \<and>
   generate_successor (chain_task [2, 0]) 0 [] 2 (chain_search 0 [2, 0] 5) =
     chain_search 0 [2, 0] 5 \<and>
   open_list (chain_search (Suc 0) [2, 0] 5) = [([0], 1)] \<and>
   open_list (chain_search (Suc 0) [2, 0] 100) = [([0], 2), ([0], 1)]"
proof -
  have wrapped: "bound (chain_search 0 [2, 0] 5) \<le>
     int_add (real_g (search_space (chain_search 0 [2, 0] 5) 0)) (get_cost (chain_task [2, 0]) 2)"
    by code_simp
  have plain: "bound (chain_search 0 [2, 0] 5) \<le>
     real_g (search_space (chain_search 0 [2, 0] 5) 0) + get_cost (chain_task [2, 0]) 2"
    by code_simp
  have lower: "- (2 ^ 31) \<le>
      real_g (search_space (chain_search 0 [2, 0] 5) 0) + get_cost (chain_task [2, 0]) 2"
    by code_simp
  have upper: "real_g (search_space (chain_search 0 [2, 0] 5) 0) + get_cost (chain_task [2, 0]) 2
      < 2 ^ 31"
    by code_simp
  have pruned: "open_list (chain_search (Suc 0) [2, 0] 5) = [([0], 1)]"
    by code_simp
  have kept: "open_list (chain_search (Suc 0) [2, 0] 100) = [([0], 2), ([0], 1)]"
    by code_simp
  from generate_successor_bound [of "chain_search 0 [2, 0] 5" 0 "chain_task [2, 0]" 2 "[]"]
    wrapped plain lower upper pruned kept
  show ?thesis by blast
qed

subsection \<open>A cheaper path to a closed node\<close>

text \<open>
  Claim C3.  With \<open>reopen_closed_nodes = false\<close>, when an operator within the bound
  leads to a closed node whose g-value exceeds the g-value of the expanded node plus
  the adjusted cost (sums as the source computes them), the loop body rewrites the
  parent state and the generating operator of that node and nothing else of it: its
  status stays closed and its g-value is unchanged; every other node and the open list
  are unchanged.
\<close>

theorem generate_successor_closed_no_reopen:
  assumes no_reopen: "\<not> reopen_closed_nodes s"
    and within: "int_add (real_g (search_space s state_id)) (get_cost env op_id) < bound s"
    and succ: "succ_state = fst (get_successor_state env (state_registry s) state_id op_id)"
    and closed: "status (search_space s succ_state) = Closed"
    and cheaper: "g_value (search_space s succ_state) >
                  int_add (g_value (search_space s state_id)) (get_adjusted_cost env op_id)"
  shows "search_space (generate_successor env state_id preferred_operators op_id s) =
           (search_space s)(succ_state := (search_space s succ_state)
              \<lparr>parent_state_id := Some state_id, creating_operator := Some op_id\<rparr>) \<and>
         status (search_space (generate_successor env state_id preferred_operators op_id s) succ_state)
           = Closed \<and>
         g_value (search_space (generate_successor env state_id preferred_operators op_id s) succ_state)
           = g_value (search_space s succ_state) \<and>
         open_list (generate_successor env state_id preferred_operators op_id s) = open_list s"
proof -
  let ?s2 = "s\<lparr>state_registry := snd (get_successor_state env (state_registry s) state_id op_id),
      statistics := inc_generated (statistics s),
      evaluators := notify_state_transition env (evaluators s) state_id op_id succ_state\<rparr>"
  have "generate_successor env state_id preferred_operators op_id s =
      ?s2\<lparr>search_space := (search_space s)(succ_state :=
         update_closed_node_parent (search_space s state_id) state_id op_id (get_cost env op_id)
           (get_adjusted_cost env op_id) (search_space s succ_state))\<rparr>"
    using no_reopen within closed cheaper
    by (simp add: generate_successor_def Let_def succ [symmetric])
  then show ?thesis
    using closed by (simp add: update_closed_node_parent_def)
qed

text \<open>The search object in the third step, when \<open>get_next_node_to_expand\<close> has
  returned the node of state 1: state 2 was closed at g-value 5 in the second step.\<close>

definition chain_expanding :: "(unit, StateID list) EagerSearch" where
  "chain_expanding =
     snd (the (get_next_node_to_expand (chain_task [2, 0]) (chain_search (Suc (Suc 0)) [2, 0] 100)))"

theorem generate_successor_closed_no_reopen_witness:
  "\<not> reopen_closed_nodes chain_expanding \<and>
   int_add (real_g (search_space chain_expanding 1)) (get_cost (chain_task [2, 0]) 1)
     < bound chain_expanding \<and>
   2 = fst (get_successor_state (chain_task [2, 0]) (state_registry chain_expanding) 1 1) \<and>
   status (search_space chain_expanding 2) = Closed \<and>
   g_value (search_space chain_expanding 2) >
     int_add (g_value (search_space chain_expanding 1)) (get_adjusted_cost (chain_task [2, 0]) 1) \<and>
   search_space (generate_successor (chain_task [2, 0]) 1 [] 1 chain_expanding) =
     (search_space chain_expanding)(2 := (search_space chain_expanding 2)
        \<lparr>parent_state_id := Some 1, creating_operator := Some 1\<rparr>) \<and>
   status (search_space (generate_successor (chain_task [2, 0]) 1 [] 1 chain_expanding) 2) = Closed \<and>
   g_value (search_space (generate_successor (chain_task [2, 0]) 1 [] 1 chain_expanding) 2) = 5 \<and>
   g_value (search_space chain_expanding 1) = 1 \<and>
   parent_state_id (search_space chain_expanding 2) = Some 0 \<and>
   open_list (generate_successor (chain_task [2, 0]) 1 [] 1 chain_expanding) =
     open_list chain_expanding"
proof -
  have no_reopen: "\<not> reopen_closed_nodes chain_expanding"
    by code_simp
  have within: "int_add (real_g (search_space chain_expanding 1)) (get_cost (chain_task [2, 0]) 1)
      < bound chain_expanding"
    by code_simp
  have succ: "2 = fst (get_successor_state (chain_task [2, 0]) (state_registry chain_expanding) 1 1)"
    by code_simp
  have closed: "status (search_space chain_expanding 2) = Closed"
    by code_simp
  have cheaper: "g_value (search_space chain_expanding 2) >
      int_add (g_value (search_space chain_expanding 1)) (get_adjusted_cost (chain_task [2, 0]) 1)"
    by code_simp
  have g2: "g_value (search_space chain_expanding 2) = 5"
    by code_simp
  have g1: "g_value (search_space chain_expanding 1) = 1"
    by code_simp
  have parent: "parent_state_id (search_space chain_expanding 2) = Some 0"
    by code_simp
  from generate_successor_closed_no_reopen [OF no_reopen within succ closed cheaper, of "[]"]
    no_reopen within succ closed cheaper g2 g1 parent
  show ?thesis by simp
qed

subsection \<open>Skipping closed entries\<close>

text \<open>An iteration of the loop of \<open>get_next_node_to_expand\<close> that continues with
  the next iteration.\<close>

definition continues ::
  "('e, 'r) Collaborators \<Rightarrow> ('e, 'r) EagerSearch \<Rightarrow> ('e, 'r) EagerSearch \<Rightarrow> bool" where
  "continues env s s' \<longleftrightarrow> open_list s \<noteq> [] \<and> pop_iteration env s = Continue s'"

lemma pop_iteration_closed:
  assumes "status (search_space s (fst (remove_min (open_list s)))) = Closed"
  shows "pop_iteration env s = Continue (s\<lparr>open_list := snd (remove_min (open_list s))\<rparr>)"
  using assms by (simp add: pop_iteration_def Let_def)

lemma pop_iteration_Return:
  assumes "pop_iteration env s = Return state_id s'"
  shows "state_id = fst (remove_min (open_list s)) \<and> status (search_space s state_id) \<noteq> Closed"
proof -
  have not_closed: "status (search_space s (fst (remove_min (open_list s)))) \<noteq> Closed"
  proof
    assume "status (search_space s (fst (remove_min (open_list s)))) = Closed"
    from pop_iteration_closed [OF this, of env] assms show False by simp
  qed
  have "state_id = fst (remove_min (open_list s))"
    using assms not_closed
    by (auto simp: pop_iteration_def Let_def close_node_def
        split: option.splits if_splits prod.splits)
  with not_closed show ?thesis by simp
qed

lemmas get_next_node_to_expand_induct =
  get_next_node_to_expand.raw_induct [rotated, consumes 1, case_names iteration]

lemma get_next_node_to_expand_trace:
  assumes "get_next_node_to_expand env s = Some res"
  shows "\<exists>s0. (continues env)\<^sup>*\<^sup>* s s0 \<and>
           (case fst res of
              None \<Rightarrow> open_list s0 = [] \<and> snd res = s0
            | Some state_id \<Rightarrow> open_list s0 \<noteq> [] \<and> pop_iteration env s0 = Return state_id (snd res))"
  using assms
proof (induction env s res rule: get_next_node_to_expand_induct)
  case (iteration next_node env s res)
  note IH = iteration(1) and body = iteration(2)
  show ?case
  proof (cases "open_list s = []")
    case True
    with body have "res = (None, s)" by simp
    with True show ?thesis by auto
  next
    case False
    show ?thesis
    proof (cases "pop_iteration env s")
      case (Continue s1)
      with False body have "next_node env s1 = Some res" by simp
      from IH [OF this] obtain s0 where s0: "(continues env)\<^sup>*\<^sup>* s1 s0"
        "case fst res of
           None \<Rightarrow> open_list s0 = [] \<and> snd res = s0
         | Some state_id \<Rightarrow> open_list s0 \<noteq> [] \<and> pop_iteration env s0 = Return state_id (snd res)"
        by (elim exE conjE)
      from False Continue have "continues env s s1" by (simp add: continues_def)
      with s0(1) have "(continues env)\<^sup>*\<^sup>* s s0" by (rule converse_rtranclp_into_rtranclp [rotated])
      with s0(2) show ?thesis by (intro exI conjI)
    next
      case (Return state_id s1)
      with False body have "res = (Some state_id, s1)" by simp
      with False Return show ?thesis by auto
    qed
  qed
qed

text \<open>
  Claim C2.  An iteration of \<open>get_next_node_to_expand\<close> that pops an entry
  whose node is closed continues with the next iteration and changes nothing but the
  open list, from which the entry is gone: the node, the statistics and the
  evaluators are as before.  An iteration that returns a node returns the node of the
  popped entry, and it was not closed when the entry was popped; and whenever
  \<open>get_next_node_to_expand\<close> returns a node, it does so from such an iteration, reached
  through iterations that continued.
\<close>

theorem get_next_node_to_expand_skips_closed:
  "(status (search_space s (fst (remove_min (open_list s)))) = Closed \<longrightarrow>
      pop_iteration env s = Continue (s\<lparr>open_list := snd (remove_min (open_list s))\<rparr>)) \<and>
   (pop_iteration env s = Return state_id s' \<longrightarrow>
      state_id = fst (remove_min (open_list s)) \<and> status (search_space s state_id) \<noteq> Closed) \<and>
   (get_next_node_to_expand env s = Some (Some state_id, s') \<longrightarrow>
      (\<exists>s0. (continues env)\<^sup>*\<^sup>* s s0 \<and> open_list s0 \<noteq> [] \<and>
            pop_iteration env s0 = Return state_id s' \<and>
            state_id = fst (remove_min (open_list s0)) \<and>
            status (search_space s0 state_id) \<noteq> Closed))"
proof (intro conjI impI)
  assume "status (search_space s (fst (remove_min (open_list s)))) = Closed"
  then show "pop_iteration env s = Continue (s\<lparr>open_list := snd (remove_min (open_list s))\<rparr>)"
    by (rule pop_iteration_closed)
next
  assume "pop_iteration env s = Return state_id s'"
  then show "state_id = fst (remove_min (open_list s))"
    and "status (search_space s state_id) \<noteq> Closed"
    using pop_iteration_Return by blast+
next
  assume "get_next_node_to_expand env s = Some (Some state_id, s')"
  from get_next_node_to_expand_trace [OF this]
  obtain s0 where s0: "(continues env)\<^sup>*\<^sup>* s s0" "open_list s0 \<noteq> []"
      "pop_iteration env s0 = Return state_id s'"
    by auto
  with pop_iteration_Return [OF s0(3)]
  show "\<exists>s0. (continues env)\<^sup>*\<^sup>* s s0 \<and> open_list s0 \<noteq> [] \<and>
            pop_iteration env s0 = Return state_id s' \<and>
            state_id = fst (remove_min (open_list s0)) \<and>
            status (search_space s0 state_id) \<noteq> Closed"
    by blast
qed

text \<open>
  In the run that lists operator 0 first, state 2 is opened at g-value 5 in the first
  step and reached at g-value 2 in the second, which adds a second entry for it, and
  it is closed in the third step.  After these three steps the open list holds the
  other entry of state 2 and the entry of state 3.
\<close>

definition chain_stale :: "(unit, StateID list) EagerSearch" where
  "chain_stale = chain_search (Suc (Suc (Suc 0))) [0, 2] 100"

definition chain_skipped :: "(unit, StateID list) EagerSearch" where
  "chain_skipped = chain_stale\<lparr>open_list := snd (remove_min (open_list chain_stale))\<rparr>"

theorem get_next_node_to_expand_skips_closed_witness:
  "open_list chain_stale = [([0], 2), ([0], 3)] \<and>
   status (search_space chain_stale (fst (remove_min (open_list chain_stale)))) = Closed \<and>
   pop_iteration (chain_task [0, 2]) chain_stale = Continue chain_skipped \<and>
   returned (pop_iteration (chain_task [0, 2]) chain_skipped) = Some 3 \<and>
   fst (remove_min (open_list chain_skipped)) = 3 \<and>
   status (search_space chain_skipped 3) \<noteq> Closed \<and>
   map_option fst (get_next_node_to_expand (chain_task [0, 2]) chain_stale) = Some (Some 3) \<and>
   (\<exists>s0 s'. (continues (chain_task [0, 2]))\<^sup>*\<^sup>* chain_stale s0 \<and> open_list s0 \<noteq> [] \<and>
      pop_iteration (chain_task [0, 2]) s0 = Return 3 s' \<and>
      status (search_space s0 3) \<noteq> Closed)"
proof -
  let ?T = "chain_task [0, 2]"
  have entries: "open_list chain_stale = [([0], 2), ([0], 3)]"
    unfolding chain_stale_def by code_simp
  have closed: "status (search_space chain_stale (fst (remove_min (open_list chain_stale)))) = Closed"
    unfolding chain_stale_def by code_simp
  have ret: "returned (pop_iteration ?T chain_skipped) = Some 3"
    unfolding chain_skipped_def chain_stale_def by code_simp
  then have pop: "pop_iteration ?T chain_skipped =
      Return 3 (search_after (pop_iteration ?T chain_skipped))"
    by (cases "pop_iteration ?T chain_skipped") simp_all
  have next_node: "map_option fst (get_next_node_to_expand ?T chain_stale) = Some (Some 3)"
    unfolding chain_stale_def by code_simp
  then have result: "get_next_node_to_expand ?T chain_stale =
      Some (Some 3, snd (the (get_next_node_to_expand ?T chain_stale)))"
    by (cases "get_next_node_to_expand ?T chain_stale") auto
  note skip = get_next_node_to_expand_skips_closed [of chain_stale ?T 3
      "snd (the (get_next_node_to_expand ?T chain_stale))"]
  note ret_node = get_next_node_to_expand_skips_closed [of chain_skipped ?T 3
      "search_after (pop_iteration ?T chain_skipped)"]
  from skip closed have "pop_iteration ?T chain_stale = Continue chain_skipped"
    by (simp add: chain_skipped_def)
  moreover from ret_node pop
  have "fst (remove_min (open_list chain_skipped)) = 3"
    and "status (search_space chain_skipped 3) \<noteq> Closed"
    by simp_all
  moreover from skip result
  have "\<exists>s0 s'. (continues ?T)\<^sup>*\<^sup>* chain_stale s0 \<and> open_list s0 \<noteq> [] \<and>
      pop_iteration ?T s0 = Return 3 s' \<and> status (search_space s0 3) \<noteq> Closed"
    by blast
  ultimately show ?thesis
    using entries closed ret next_node by simp
qed

subsection \<open>Dead ends and the open list\<close>

text \<open>Every entry of the open list is for a state whose node is open or closed.\<close>

definition entries_known :: "('e, 'r) EagerSearch \<Rightarrow> bool" where
  "entries_known s \<longleftrightarrow>
     (\<forall>entry \<in> set (open_list s).
        status (search_space s (snd entry)) = Open \<or> status (search_space s (snd entry)) = Closed)"

lemma entries_known_other_fields:
  "entries_known (s\<lparr>statistics := st\<rparr>) = entries_known s"
  "entries_known (s\<lparr>evaluators := e\<rparr>) = entries_known s"
  "entries_known (s\<lparr>state_registry := r\<rparr>) = entries_known s"
  by (simp_all add: entries_known_def)

lemma entries_known_node:
  assumes "entries_known s" and "status node = Open \<or> status node = Closed"
  shows "entries_known (s\<lparr>search_space := (search_space s)(state_id := node)\<rparr>)"
  using assms by (auto simp: entries_known_def)

lemma entries_known_new_node:
  assumes "entries_known s" and "status (search_space s state_id) = New"
  shows "entries_known (s\<lparr>search_space := (search_space s)(state_id := node)\<rparr>)"
  using assms by (auto simp: entries_known_def)

lemma insert_entry_search_space:
  "search_space (insert_entry env eval_context state_id s) = search_space s"
  by (simp add: insert_entry_def Let_def split: prod.splits)

lemma insert_entry_entries:
  assumes "entry \<in> set (open_list (insert_entry env eval_context state_id s))"
  shows "entry \<in> set (open_list s) \<or> snd entry = state_id"
  using assms by (auto simp: insert_entry_def Let_def split: prod.splits if_splits)

lemma entries_known_insert_entry:
  assumes "entries_known s"
    and "status (search_space s state_id) = Open \<or> status (search_space s state_id) = Closed"
  shows "entries_known (insert_entry env eval_context state_id s)"
  unfolding entries_known_def
proof
  fix entry assume "entry \<in> set (open_list (insert_entry env eval_context state_id s))"
  from insert_entry_entries [OF this] assms
  show "status (search_space (insert_entry env eval_context state_id s) (snd entry)) = Open \<or>
        status (search_space (insert_entry env eval_context state_id s) (snd entry)) = Closed"
    by (auto simp: insert_entry_search_space entries_known_def)
qed

lemma update_f_value_statistics_fields:
  "search_space (update_f_value_statistics env eval_context s) = search_space s"
  "open_list (update_f_value_statistics env eval_context s) = open_list s"
  by (simp_all add: update_f_value_statistics_def split: option.splits prod.splits)

lemma start_f_value_statistics_fields:
  "search_space (start_f_value_statistics env eval_context s) = search_space s"
  "open_list (start_f_value_statistics env eval_context s) = open_list s"
  by (simp_all add: start_f_value_statistics_def split: option.splits prod.splits)

lemma entries_known_update_f_value_statistics:
  "entries_known (update_f_value_statistics env eval_context s) = entries_known s"
  by (simp add: entries_known_def update_f_value_statistics_fields)

lemma least_entry_in: "least_entry best entries \<in> set (best # entries)"
  by (induction entries arbitrary: best) auto

lemma remove_min_entries:
  assumes "entries \<noteq> []"
  shows "\<exists>entry \<in> set entries. snd entry = fst (remove_min entries)"
    and "set (snd (remove_min entries)) \<subseteq> set entries"
proof -
  from assms least_entry_in [of "hd entries" "tl entries"]
  have "least_entry (hd entries) (tl entries) \<in> set entries"
    by (cases entries) simp_all
  then show "\<exists>entry \<in> set entries. snd entry = fst (remove_min entries)"
    by (auto simp: remove_min_def Let_def)
  show "set (snd (remove_min entries)) \<subseteq> set entries"
    by (simp add: remove_min_def Let_def set_remove1_subset)
qed

lemma pop_iteration_entries_known:
  assumes no_lazy: "lazy_evaluator env = None"
    and inv: "entries_known s" and ne: "open_list s \<noteq> []"
  shows "case pop_iteration env s of
           Continue s' \<Rightarrow> entries_known s'
         | Return state_id s' \<Rightarrow>
             entries_known s' \<and> status (search_space s state_id) = Open \<and>
             status (search_space s' state_id) = Closed"
proof -
  define popped where "popped = fst (remove_min (open_list s))"
  define s1 where "s1 = s\<lparr>open_list := snd (remove_min (open_list s))\<rparr>"
  from remove_min_entries [OF ne] inv
  have known: "status (search_space s popped) = Open \<or> status (search_space s popped) = Closed"
    and inv1: "entries_known s1"
    by (auto simp: entries_known_def popped_def s1_def)
  show ?thesis
  proof (cases "status (search_space s popped) = Closed")
    case True
    then have "pop_iteration env s = Continue s1"
      unfolding popped_def s1_def by (rule pop_iteration_closed)
    with inv1 show ?thesis by simp
  next
    case False
    with known have is_open: "status (search_space s popped) = Open" by simp
    define eval_context where "eval_context =
        \<lparr>ec_state = popped, ec_g_value = g_value (search_space s popped), ec_is_preferred = False\<rparr>"
    define s2 where "s2 = s1\<lparr>search_space := (search_space s1)(popped := close (search_space s1 popped))\<rparr>"
    have "entries_known s2"
      unfolding s2_def using inv1 by (rule entries_known_node) (simp add: close_def)
    then have "entries_known (update_f_value_statistics env eval_context s2)"
      by (simp add: entries_known_update_f_value_statistics)
    moreover have "status (search_space (update_f_value_statistics env eval_context s2) popped) = Closed"
      by (simp add: update_f_value_statistics_fields s2_def close_def)
    moreover have "pop_iteration env s =
        Return popped (update_f_value_statistics env eval_context s2)"
      using False no_lazy
      by (simp add: pop_iteration_def Let_def popped_def s1_def
          close_node_def eval_context_def s2_def)
    ultimately show ?thesis using is_open by simp
  qed
qed

lemma generate_successor_entries_known:
  assumes inv: "entries_known s"
  shows "entries_known (generate_successor env state_id preferred_operators op_id s)"
proof (cases "int_add (real_g (search_space s state_id)) (get_cost env op_id) \<ge> bound s")
  case True
  with inv show ?thesis by (simp add: generate_successor_def Let_def)
next
  case within: False
  define node where "node = search_space s state_id"
  define succ_state where "succ_state = fst (get_successor_state env (state_registry s) state_id op_id)"
  define succ_node where "succ_node = search_space s succ_state"
  define is_preferred where "is_preferred = (op_id \<in> set preferred_operators)"
  define s2 where "s2 = s\<lparr>state_registry := snd (get_successor_state env (state_registry s) state_id op_id),
      statistics := inc_generated (statistics s),
      evaluators := notify_state_transition env (evaluators s) state_id op_id succ_state\<rparr>"
  have inv2: "entries_known s2" using inv by (simp add: s2_def entries_known_other_fields)
  have space2: "search_space s2 = search_space s" by (simp add: s2_def)
  show ?thesis
  proof (cases "status succ_node")
    case DeadEnd
    with within have "generate_successor env state_id preferred_operators op_id s = s2"
      by (simp add: generate_successor_def Let_def node_def succ_state_def succ_node_def is_preferred_def s2_def)
    with inv2 show ?thesis by simp
  next
    case New
    define succ_eval_context where "succ_eval_context =
        \<lparr>ec_state = succ_state, ec_g_value = int_add (g_value node) (get_adjusted_cost env op_id),
         ec_is_preferred = is_preferred\<rparr>"
    define s4 where "s4 = s2\<lparr>statistics := inc_evaluated_states (statistics s2),
        evaluators := snd (is_dead_end env (evaluators s2) succ_eval_context)\<rparr>"
    have inv4: "entries_known s4" using inv2 by (simp add: s4_def entries_known_other_fields)
    have new4: "status (search_space s4 succ_state) = New"
      using New by (simp add: s4_def space2 succ_node_def)
    show ?thesis
    proof (cases "fst (is_dead_end env (evaluators s2) succ_eval_context)")
      case True
      have "entries_known (s4\<lparr>search_space := (search_space s4)(succ_state := mark_as_dead_end succ_node)\<rparr>)"
        using inv4 new4 by (rule entries_known_new_node)
      then have known: "entries_known (s4\<lparr>search_space := (search_space s4)(succ_state := mark_as_dead_end succ_node),
          statistics := inc_dead_ends (statistics s4)\<rparr>)"
        by (simp add: entries_known_def)
      from within New True
      have "generate_successor env state_id preferred_operators op_id s =
          s4\<lparr>search_space := (search_space s4)(succ_state := mark_as_dead_end succ_node),
             statistics := inc_dead_ends (statistics s4)\<rparr>"
        by (simp add: generate_successor_def Let_def node_def succ_state_def succ_node_def is_preferred_def s2_def succ_eval_context_def s4_def)
      with known show ?thesis by simp
    next
      case False
      define s5 where "s5 = s4\<lparr>search_space := (search_space s4)(succ_state :=
          open_new_node node state_id op_id (get_cost env op_id)
            (get_adjusted_cost env op_id) succ_node)\<rparr>"
      have "entries_known s5"
        unfolding s5_def using inv4 new4 by (rule entries_known_new_node)
      moreover have "status (search_space s5 succ_state) = Open"
        by (simp add: s5_def open_new_node_def)
      ultimately have "entries_known (insert_entry env succ_eval_context succ_state s5)"
        by (intro entries_known_insert_entry) simp_all
      then have known: "entries_known ((insert_entry env succ_eval_context succ_state s5)
          \<lparr>evaluators := snd (check_progress env
             (evaluators (insert_entry env succ_eval_context succ_state s5)) succ_eval_context)\<rparr>)"
        by (simp add: entries_known_other_fields)
      from within New False
      have "generate_successor env state_id preferred_operators op_id s =
          (insert_entry env succ_eval_context succ_state s5)
          \<lparr>evaluators := snd (check_progress env
             (evaluators (insert_entry env succ_eval_context succ_state s5)) succ_eval_context)\<rparr>"
        by (simp add: generate_successor_def Let_def node_def succ_state_def succ_node_def is_preferred_def s2_def succ_eval_context_def s4_def s5_def
            boost_preferred_def)
      with known show ?thesis by simp
    qed
  next
    case Open
    show ?thesis
    proof (cases "g_value succ_node > int_add (g_value node) (get_adjusted_cost env op_id)")
      case False
      with within Open have "generate_successor env state_id preferred_operators op_id s = s2"
        by (simp add: generate_successor_def Let_def node_def succ_state_def succ_node_def is_preferred_def s2_def)
      with inv2 show ?thesis by simp
    next
      case True
      define s3 where "s3 = s2\<lparr>search_space := (search_space s2)(succ_state :=
          update_open_node_parent node state_id op_id (get_cost env op_id)
            (get_adjusted_cost env op_id) succ_node)\<rparr>"
      have st: "status (search_space s3 succ_state) = Open"
        using Open by (simp add: s3_def update_open_node_parent_def update_parent_def)
      have "entries_known s3"
        unfolding s3_def using inv2
        by (rule entries_known_node)
          (use Open in \<open>simp add: update_open_node_parent_def update_parent_def\<close>)
      then have known: "entries_known (insert_entry env eval_context succ_state s3)" for eval_context
        using st by (intro entries_known_insert_entry) simp_all
      from within Open True
      have "generate_successor env state_id preferred_operators op_id s =
          insert_entry env \<lparr>ec_state = succ_state, ec_g_value = g_value (search_space s3 succ_state),
              ec_is_preferred = is_preferred\<rparr> succ_state s3"
        by (simp add: generate_successor_def Let_def node_def succ_state_def succ_node_def is_preferred_def s2_def s3_def)
      with known show ?thesis by simp
    qed
  next
    case Closed
    show ?thesis
    proof (cases "g_value succ_node > int_add (g_value node) (get_adjusted_cost env op_id)")
      case False
      with within Closed have "generate_successor env state_id preferred_operators op_id s = s2"
        by (simp add: generate_successor_def Let_def node_def succ_state_def succ_node_def is_preferred_def s2_def)
      with inv2 show ?thesis by simp
    next
      case True
      show ?thesis
      proof (cases "reopen_closed_nodes s")
        case reopen: True
        define s4 where "s4 = s2\<lparr>statistics := inc_reopened (statistics s2),
            search_space := (search_space s2)(succ_state :=
              reopen_closed_node node state_id op_id (get_cost env op_id)
                (get_adjusted_cost env op_id) succ_node)\<rparr>"
        have st: "status (search_space s4 succ_state) = Open"
          by (simp add: s4_def reopen_closed_node_def)
        have "entries_known (s2\<lparr>search_space := (search_space s2)(succ_state :=
              reopen_closed_node node state_id op_id (get_cost env op_id)
                (get_adjusted_cost env op_id) succ_node)\<rparr>)"
          using inv2 by (rule entries_known_node) (simp add: reopen_closed_node_def)
        then have "entries_known s4"
          by (simp add: s4_def entries_known_def)
        then have known: "entries_known (insert_entry env eval_context succ_state s4)" for eval_context
          using st by (intro entries_known_insert_entry) simp_all
        from within Closed True reopen
        have "generate_successor env state_id preferred_operators op_id s =
            insert_entry env \<lparr>ec_state = succ_state, ec_g_value = g_value (search_space s4 succ_state),
                ec_is_preferred = is_preferred\<rparr> succ_state s4"
          by (simp add: generate_successor_def Let_def node_def succ_state_def succ_node_def is_preferred_def s2_def s4_def)
        with known show ?thesis by simp
      next
        case no_reopen: False
        have known: "entries_known (s2\<lparr>search_space := (search_space s2)(succ_state :=
              update_closed_node_parent node state_id op_id (get_cost env op_id)
                (get_adjusted_cost env op_id) succ_node)\<rparr>)"
          using inv2
          by (rule entries_known_node) (use Closed in \<open>simp add: update_closed_node_parent_def\<close>)
        from within Closed True no_reopen
        have "generate_successor env state_id preferred_operators op_id s =
            s2\<lparr>search_space := (search_space s2)(succ_state :=
              update_closed_node_parent node state_id op_id (get_cost env op_id)
                (get_adjusted_cost env op_id) succ_node)\<rparr>"
          by (simp add: generate_successor_def Let_def node_def succ_state_def succ_node_def is_preferred_def s2_def)
        with known show ?thesis by simp
      qed
    qed
  qed
qed

lemma fold_generate_successor_entries_known:
  assumes "entries_known s"
  shows "entries_known (fold (generate_successor env state_id preferred_operators) ops s)"
  using assms
  by (induction ops arbitrary: s) (simp_all add: generate_successor_entries_known)

text \<open>The search object after the first \<open>k\<close> iterations of the loop of
  \<open>generate_successors\<close>.\<close>

definition generate_successors_upto ::
  "nat \<Rightarrow> ('e, 'r) Collaborators \<Rightarrow> StateID \<Rightarrow> ('e, 'r) EagerSearch \<Rightarrow> ('e, 'r) EagerSearch" where
  "generate_successors_upto k env state_id s =
     (let applicable = applicable_operators env (state_registry s) state_id;
          eval_context = \<lparr>ec_state = state_id, ec_g_value = g_value (search_space s state_id),
                          ec_is_preferred = False\<rparr>;
          preferred_operators = fst (preferred_operators_of env (evaluators s) eval_context);
          s1 = s\<lparr>evaluators := snd (preferred_operators_of env (evaluators s) eval_context)\<rparr>
      in fold (generate_successor env state_id preferred_operators) (take k applicable) s1)"

lemma generate_successors_upto_all:
  "generate_successors env state_id s =
     generate_successors_upto (length (applicable_operators env (state_registry s) state_id))
       env state_id s"
  by (simp add: generate_successors_def generate_successors_upto_def Let_def)

lemma generate_successors_upto_entries_known:
  assumes "entries_known s"
  shows "entries_known (generate_successors_upto k env state_id s)"
  unfolding generate_successors_upto_def Let_def
  by (intro fold_generate_successor_entries_known) (simp add: entries_known_other_fields assms)

lemma expand_entries_known:
  assumes "entries_known s"
  shows "entries_known (snd (expand env state_id s))"
  using assms
  by (simp add: expand_def Let_def generate_successors_upto_all
      generate_successors_upto_entries_known entries_known_other_fields)

lemma continues_entries_known:
  assumes "lazy_evaluator env = None" and "entries_known s" and "continues env s s'"
  shows "entries_known s'"
  using pop_iteration_entries_known [OF assms(1,2)] assms(3)
  by (simp add: continues_def)

lemma continues_rtranclp_entries_known:
  assumes "lazy_evaluator env = None"
  shows "(continues env)\<^sup>*\<^sup>* s s0 \<Longrightarrow> entries_known s \<Longrightarrow> entries_known s0"
  by (induction rule: rtranclp_induct) (auto intro: continues_entries_known [OF assms])

lemma get_next_node_to_expand_entries_known:
  assumes no_lazy: "lazy_evaluator env = None" and inv: "entries_known s"
    and res: "get_next_node_to_expand env s = Some (node, s')"
  shows "entries_known s'"
proof -
  from get_next_node_to_expand_trace [OF res]
  have "\<exists>s0. (continues env)\<^sup>*\<^sup>* s s0 \<and>
      (case node of
         None \<Rightarrow> open_list s0 = [] \<and> s' = s0
       | Some state_id \<Rightarrow> open_list s0 \<noteq> [] \<and> pop_iteration env s0 = Return state_id s')"
    by (cases node) simp_all
  then obtain s0 where s0: "(continues env)\<^sup>*\<^sup>* s s0"
    and last: "case node of
           None \<Rightarrow> open_list s0 = [] \<and> s' = s0
         | Some state_id \<Rightarrow> open_list s0 \<noteq> [] \<and> pop_iteration env s0 = Return state_id s'"
    by blast
  from continues_rtranclp_entries_known [OF no_lazy s0 inv] have inv0: "entries_known s0" .
  show ?thesis
  proof (cases node)
    case None
    with last inv0 show ?thesis by simp
  next
    case (Some state_id)
    with last have "open_list s0 \<noteq> []" and "pop_iteration env s0 = Return state_id s'"
      by simp_all
    with pop_iteration_entries_known [OF no_lazy inv0] show ?thesis by simp
  qed
qed

lemma step_entries_known:
  assumes no_lazy: "lazy_evaluator env = None" and inv: "entries_known s"
    and res: "step env s = Some (result, s')"
  shows "entries_known s'"
proof (cases "get_next_node_to_expand env s")
  case None
  with res show ?thesis by (simp add: step_def)
next
  case (Some found)
  obtain node s1 where found: "found = (node, s1)" by (cases found)
  from get_next_node_to_expand_entries_known [OF no_lazy inv] Some found
  have inv1: "entries_known s1" by simp
  show ?thesis
  proof (cases node)
    case None
    with res Some found inv1 show ?thesis by (simp add: step_def)
  next
    case (Some state_id)
    with res \<open>get_next_node_to_expand env s = Some found\<close> found
    have "s' = snd (expand env state_id s1)" by (auto simp: step_def)
    with expand_entries_known [OF inv1] show ?thesis by simp
  qed
qed

lemma open_initial_entries_known:
  assumes "entries_known t"
  shows "entries_known (insert_entry env eval_context state_id
      (t\<lparr>search_space := (search_space t)(state_id := open_initial (search_space t state_id))\<rparr>))"
proof (rule entries_known_insert_entry)
  show "entries_known (t\<lparr>search_space :=
      (search_space t)(state_id := open_initial (search_space t state_id))\<rparr>)"
    using assms by (rule entries_known_node) (simp add: open_initial_def)
  show "status (search_space (t\<lparr>search_space :=
        (search_space t)(state_id := open_initial (search_space t state_id))\<rparr>) state_id) = Open \<or>
      status (search_space (t\<lparr>search_space :=
        (search_space t)(state_id := open_initial (search_space t state_id))\<rparr>) state_id) = Closed"
    by (simp add: open_initial_def)
qed

lemma start_f_value_statistics_entries_known:
  "entries_known (start_f_value_statistics env eval_context s) = entries_known s"
  by (simp add: entries_known_def start_f_value_statistics_fields)

lemma initialize_entries_known:
  assumes "open_list s = []"
  shows "entries_known (initialize env s)"
proof -
  from assms have empty: "entries_known s" by (simp add: entries_known_def)
  show ?thesis
    unfolding initialize_def Let_def
    by (auto simp: entries_known_other_fields start_f_value_statistics_entries_known empty
        split: prod.splits intro!: open_initial_entries_known)
qed

text \<open>
  The run of the search: \<open>initialize\<close> on the constructed object, then \<open>step\<close> as long
  as it returns \<open>IN_PROGRESS\<close>.  \<open>reached env result s\<close> holds for the search object
  \<open>s\<close> after \<open>initialize\<close> (with \<open>IN_PROGRESS\<close>) and after every call of \<open>step\<close>,
  with the status that the call returned.
\<close>

inductive reached ::
  "('e, 'r) Collaborators \<Rightarrow> SearchStatus \<Rightarrow> ('e, 'r) EagerSearch \<Rightarrow> bool"
  for env :: "('e, 'r) Collaborators" where
  reached_initialize:
    "EagerSearch_new None env reopen_closed cost_bound e r = Inr s \<Longrightarrow>
     reached env IN_PROGRESS (initialize env s)"
| reached_step:
    "reached env IN_PROGRESS s \<Longrightarrow> step env s = Some (result, s') \<Longrightarrow> reached env result s'"

text \<open>No entry of the open list is for a state whose node is a dead end.\<close>

definition no_dead_end_entries :: "('e, 'r) EagerSearch \<Rightarrow> bool" where
  "no_dead_end_entries s \<longleftrightarrow>
     (\<forall>entry \<in> set (open_list s). status (search_space s (snd entry)) \<noteq> DeadEnd)"

lemma entries_known_no_dead_end: "entries_known s \<Longrightarrow> no_dead_end_entries s"
  by (auto simp: entries_known_def no_dead_end_entries_def)

lemma reached_entries_known:
  assumes no_lazy: "lazy_evaluator env = None"
  shows "reached env result s \<Longrightarrow> entries_known s"
proof (induction rule: reached.induct)
  case (reached_initialize reopen_closed cost_bound e r s)
  then have "open_list s = []"
    by (auto simp: EagerSearch_new_def Let_def split: option.splits if_splits)
  then show ?case by (rule initialize_entries_known)
next
  case (reached_step s result s')
  from step_entries_known [OF no_lazy reached_step.IH reached_step.hyps(2)] show ?case .
qed

text \<open>
  Claim C9.  Without a lazy evaluator, at every moment of a run no entry of the open
  list is for a state whose node is a dead end: this holds when \<open>initialize\<close> and
  every \<open>step\<close> return, before every iteration of the loop of
  \<open>get_next_node_to_expand\<close>, and after every iteration of the loop of
  \<open>generate_successors\<close>.  Hence a node that \<open>get_next_node_to_expand\<close> pops and
  closes was open when it was popped, and is closed, not a dead end, when the
  assertion is evaluated.
\<close>

theorem get_next_node_to_expand_no_dead_end:
  assumes no_lazy: "lazy_evaluator env = None"
    and run: "reached env result s"
  shows "no_dead_end_entries s \<and>
         (\<forall>s0. (continues env)\<^sup>*\<^sup>* s s0 \<longrightarrow>
            no_dead_end_entries s0 \<and>
            (\<forall>state_id s'. open_list s0 \<noteq> [] \<and> pop_iteration env s0 = Return state_id s' \<longrightarrow>
               status (search_space s0 state_id) = Open \<and>
               status (search_space s' state_id) = Closed \<and>
               status (search_space s' state_id) \<noteq> DeadEnd \<and>
               no_dead_end_entries s' \<and>
               (\<forall>k. no_dead_end_entries
                  (generate_successors_upto k env state_id
                     (s'\<lparr>statistics := inc_expanded (statistics s')\<rparr>)))))"
proof (intro conjI allI impI)
  from reached_entries_known [OF no_lazy run] have inv: "entries_known s" .
  then show "no_dead_end_entries s" by (rule entries_known_no_dead_end)
  fix s0
  assume "(continues env)\<^sup>*\<^sup>* s s0"
  from continues_rtranclp_entries_known [OF no_lazy this inv] have inv0: "entries_known s0" .
  then show "no_dead_end_entries s0" by (rule entries_known_no_dead_end)
  fix state_id s'
  assume "open_list s0 \<noteq> [] \<and> pop_iteration env s0 = Return state_id s'"
  with pop_iteration_entries_known [OF no_lazy inv0]
  have inv': "entries_known s'" and was_open: "status (search_space s0 state_id) = Open"
    and closed: "status (search_space s' state_id) = Closed"
    by simp_all
  from was_open show "status (search_space s0 state_id) = Open" .
  from closed show "status (search_space s' state_id) = Closed" .
  from closed show "status (search_space s' state_id) \<noteq> DeadEnd" by simp
  from inv' show "no_dead_end_entries s'" by (rule entries_known_no_dead_end)
  fix k
  from inv' have "entries_known (s'\<lparr>statistics := inc_expanded (statistics s')\<rparr>)"
    by (simp add: entries_known_other_fields)
  then have "entries_known (generate_successors_upto k env state_id
      (s'\<lparr>statistics := inc_expanded (statistics s')\<rparr>))"
    by (rule generate_successors_upto_entries_known)
  then show "no_dead_end_entries (generate_successors_upto k env state_id
      (s'\<lparr>statistics := inc_expanded (statistics s')\<rparr>))"
    by (rule entries_known_no_dead_end)
qed

text \<open>
  In the run that lists operator 0 first, the second step expands state 1 and finds
  state 4, on which the evaluator of the open list is infinite: its node is marked as
  a dead end and gets no entry.
\<close>

definition chain_dead_end :: "(unit, StateID list) EagerSearch" where
  "chain_dead_end = chain_search (Suc (Suc 0)) [0, 2] 100"

lemma step_result:
  assumes "map_option fst (step env s) = Some result"
  shows "step env s = Some (result, snd (the (step env s)))"
  using assms by (cases "step env s") auto

theorem get_next_node_to_expand_no_dead_end_witness:
  "lazy_evaluator (chain_task [0, 2]) = None \<and>
   reached (chain_task [0, 2]) IN_PROGRESS chain_dead_end \<and>
   open_list chain_dead_end = [([0], 2), ([0], 2), ([0], 3)] \<and>
   status (search_space chain_dead_end 4) = DeadEnd \<and>
   no_dead_end_entries chain_dead_end \<and>
   returned (pop_iteration (chain_task [0, 2]) chain_dead_end) = Some 2 \<and>
   status (search_space chain_dead_end 2) = Open \<and>
   status (search_space (search_after (pop_iteration (chain_task [0, 2]) chain_dead_end)) 2) = Closed \<and>
   no_dead_end_entries (search_after (pop_iteration (chain_task [0, 2]) chain_dead_end))"
proof -
  let ?T = "chain_task [0, 2]"
  have no_lazy: "lazy_evaluator ?T = None"
    by (simp add: chain_task_def)
  have "EagerSearch_new None ?T False 100 () [] =
      Inr (projr (EagerSearch_new None ?T False 100 () []))"
    by (simp add: EagerSearch_new_def chain_task_def)
  then have "reached ?T IN_PROGRESS (initialize ?T (projr (EagerSearch_new None ?T False 100 () [])))"
    by (rule reached_initialize)
  then have run0: "reached ?T IN_PROGRESS (chain_search 0 [0, 2] 100)"
    by (simp add: chain_search0_def)
  have "map_option fst (step ?T (chain_search 0 [0, 2] 100)) = Some IN_PROGRESS"
    by code_simp
  from reached_step [OF run0 step_result [OF this]]
  have run1: "reached ?T IN_PROGRESS (chain_search (Suc 0) [0, 2] 100)"
    by simp
  have "map_option fst (step ?T (chain_search (Suc 0) [0, 2] 100)) = Some IN_PROGRESS"
    by code_simp
  from reached_step [OF run1 step_result [OF this]]
  have run: "reached ?T IN_PROGRESS chain_dead_end"
    by (simp add: chain_dead_end_def)
  have entries: "open_list chain_dead_end = [([0], 2), ([0], 2), ([0], 3)]"
    unfolding chain_dead_end_def by code_simp
  have dead: "status (search_space chain_dead_end 4) = DeadEnd"
    unfolding chain_dead_end_def by code_simp
  have ret: "returned (pop_iteration ?T chain_dead_end) = Some 2"
    unfolding chain_dead_end_def by code_simp
  then have pop: "pop_iteration ?T chain_dead_end =
      Return 2 (search_after (pop_iteration ?T chain_dead_end))"
    by (cases "pop_iteration ?T chain_dead_end") simp_all
  from entries have ne: "open_list chain_dead_end \<noteq> []" by simp
  have start: "(continues ?T)\<^sup>*\<^sup>* chain_dead_end chain_dead_end" by simp
  from get_next_node_to_expand_no_dead_end [OF no_lazy run] start ne pop
  have "no_dead_end_entries chain_dead_end \<and>
      status (search_space chain_dead_end 2) = Open \<and>
      status (search_space (search_after (pop_iteration ?T chain_dead_end)) 2) = Closed \<and>
      no_dead_end_entries (search_after (pop_iteration ?T chain_dead_end))"
    by blast
  with no_lazy run entries dead ret show ?thesis by simp
qed

end
